theory Spec2Isabelle
  imports Complex_Main "HOL-Library.Sublist" "HOL-Library.Multiset" "HOL-Library.Char_ord" "HOL-Library.List_Lexorder"
begin

section \<open>JavaScript values and built-ins shared by the models\<close>

text \<open>
  The values that flow through cache keys, table cells and filter conditions. A number is
  an integral double (decimal rendering below \<open>10^21\<close>); fractional doubles, \<open>NaN\<close> and
  the infinities as cell values are outside this embedding.
\<close>

datatype jsval =
    Undefined
  | Null
  | Bool bool
  | Num int
  | Str string
  | Arr "jsval list"

definition digit_char :: "nat \<Rightarrow> char" where
  "digit_char n = ''0123456789'' ! n"

fun show_nat :: "nat \<Rightarrow> string" where
  "show_nat n = (if n < 10 then [digit_char n] else show_nat (n div 10) @ [digit_char (n mod 10)])"

declare show_nat.simps [simp del]

definition show_int :: "int \<Rightarrow> string" where
  "show_int i = (if i < 0 then CHR ''-'' # show_nat (nat (- i)) else show_nat (nat i))"

text \<open>\<open>Array.prototype.join\<close>: the elements' strings with the separator between them.\<close>

fun join_strings :: "string \<Rightarrow> string list \<Rightarrow> string" where
  "join_strings sep [] = []"
| "join_strings sep [x] = x"
| "join_strings sep (x # y # ys) = x @ sep @ join_strings sep (y # ys)"

text \<open>
  \<open>String(v)\<close>. Inside \<open>join\<close> an element that is \<open>null\<close> or \<open>undefined\<close> gives the
  empty string (\<open>join_elem\<close>); an array is its elements joined with a comma.
\<close>

fun String_js :: "jsval \<Rightarrow> string"
  and join_elem :: "jsval \<Rightarrow> string" where
  "String_js Undefined = ''undefined''"
| "String_js Null = ''null''"
| "String_js (Bool b) = (if b then ''true'' else ''false'')"
| "String_js (Num n) = show_int n"
| "String_js (Str s) = s"
| "String_js (Arr xs) = join_strings '','' (map join_elem xs)"
| "join_elem Undefined = []"
| "join_elem Null = []"
| "join_elem (Bool b) = String_js (Bool b)"
| "join_elem (Num n) = String_js (Num n)"
| "join_elem (Str s) = String_js (Str s)"
| "join_elem (Arr xs) = String_js (Arr xs)"

text \<open>
  \<open>Array.prototype.sort(compareFn)\<close>. The comparator returns a number; a negative result
  puts its first argument first. ECMAScript requires the sort to be stable, and fixes the
  result whenever the comparator is consistent: it is then the one this insertion sort
  computes (each element, from the right, is placed before the first element it does not
  exceed).
\<close>

fun insert_by :: "('a \<Rightarrow> 'a \<Rightarrow> int) \<Rightarrow> 'a \<Rightarrow> 'a list \<Rightarrow> 'a list" where
  "insert_by cmp x [] = [x]"
| "insert_by cmp x (y # ys) = (if cmp x y \<le> 0 then x # y # ys else y # insert_by cmp x ys)"

fun js_sort :: "('a \<Rightarrow> 'a \<Rightarrow> int) \<Rightarrow> 'a list \<Rightarrow> 'a list" where
  "js_sort cmp [] = []"
| "js_sort cmp (x # xs) = insert_by cmp x (js_sort cmp xs)"

text \<open>A JavaScript \<open>Map\<close>: keys are distinct and kept in insertion order.\<close>

fun Map_get :: "('k \<times> 'v) list \<Rightarrow> 'k \<Rightarrow> 'v option" where
  "Map_get [] k = None"
| "Map_get ((k', v) # m) k = (if k' = k then Some v else Map_get m k)"

fun Map_set :: "('k \<times> 'v) list \<Rightarrow> 'k \<Rightarrow> 'v \<Rightarrow> ('k \<times> 'v) list" where
  "Map_set [] k v = [(k, v)]"
| "Map_set ((k', v') # m) k v = (if k' = k then (k, v) # m else (k', v') # Map_set m k v)"

fun Map_delete :: "('k \<times> 'v) list \<Rightarrow> 'k \<Rightarrow> ('k \<times> 'v) list" where
  "Map_delete [] k = []"
| "Map_delete ((k', v) # m) k = (if k' = k then Map_delete m k else (k', v) # Map_delete m k)"

section \<open>The cache engine (\<open>CacheWorker\<close>)\<close>

datatype priority = Low | Normal | High

text \<open>The metadata \<open>setCacheData\<close> stores in \<open>cacheIndex\<close> under the hashed key.\<close>

record cacheInfo =
  ci_key :: jsval
  ci_timestamp :: int
  ci_ttl :: int
  ci_size :: int
  ci_compressed :: bool
  ci_priority :: priority
  ci_filePath :: string

text \<open>The object that is serialised into the cache file.\<close>

record 'v cacheEntry =
  ce_key :: jsval
  ce_value :: 'v
  ce_timestamp :: int
  ce_ttl :: int
  ce_compressed :: bool
  ce_priority :: priority
  ce_size :: int

text \<open>
  The Node.js runtime the worker calls into: \<open>crypto\<close>'s MD5 hex digest, \<open>zlib\<close>'s
  \<open>gzip\<close> and \<open>gunzip\<close> (which rejects malformed input), \<open>JSON.stringify\<close> and
  \<open>JSON.parse\<close> (which throws on malformed text), and the length of a buffer. \<open>'b\<close> is
  the type of file contents. None of these is code of the repository, so every definition
  below takes them as the parameter \<open>R\<close>.
\<close>

record ('b, 'v) runtime =
  md5_hex :: "string \<Rightarrow> string"
  gzip :: "'b \<Rightarrow> 'b"
  gunzip :: "'b \<Rightarrow> 'b option"
  stringify :: "'v cacheEntry \<Rightarrow> 'b"
  parse :: "'b \<Rightarrow> 'v cacheEntry option"
  byte_length :: "'b \<Rightarrow> int"

text \<open>
  The worker's fields. \<open>files\<close> is the disk: the contents of each path that exists.
  Writes to it succeed (a full or read-only disk is not modelled).
\<close>

record 'b cache_state =
  cacheDir :: string
  maxCacheSize :: int
  currentCacheSize :: int
  cacheIndex :: "(string \<times> cacheInfo) list"
  files :: "string \<Rightarrow> 'b option"

record cache_options =
  opt_ttl :: "int option"
  opt_compress :: "bool option"
  opt_priority :: "priority option"

definition generateCacheKey :: "('b, 'v) runtime \<Rightarrow> jsval \<Rightarrow> string" where
  "generateCacheKey R k = md5_hex R (String_js k)"

definition cacheFilePath :: "string \<Rightarrow> string \<Rightarrow> string" where
  "cacheFilePath dir cacheKey = dir @ ''/data/'' @ cacheKey @ ''.cache''"

text \<open>
  \<open>deleteCacheEntry\<close>: when the key is indexed, unlink its file and, only if that
  succeeded, take the entry's size off the running total (a missing file is the ignored
  \<open>ENOENT\<close>); then drop the key from the index.
\<close>

definition deleteCacheEntry :: "string \<Rightarrow> 'b cache_state \<Rightarrow> 'b cache_state" where
  "deleteCacheEntry cacheKey s =
     (case Map_get (cacheIndex s) cacheKey of
        None \<Rightarrow> s
      | Some info \<Rightarrow>
          (let s1 = (case files s (ci_filePath info) of
                       None \<Rightarrow> s
                     | Some _ \<Rightarrow> s\<lparr>files := (files s)(ci_filePath info := None),
                                    currentCacheSize := currentCacheSize s - ci_size info\<rparr>)
           in s1\<lparr>cacheIndex := Map_delete (cacheIndex s1) cacheKey\<rparr>))"

text \<open>The comparator of \<open>evictOldCache\<close>: lower priority first, then the earlier timestamp.\<close>

fun priorityOrder :: "priority \<Rightarrow> int" where
  "priorityOrder Low = 0"
| "priorityOrder Normal = 1"
| "priorityOrder High = 2"

definition evict_cmp :: "string \<times> cacheInfo \<Rightarrow> string \<times> cacheInfo \<Rightarrow> int" where
  "evict_cmp a b =
     (if ci_priority (snd a) \<noteq> ci_priority (snd b)
      then priorityOrder (ci_priority (snd a)) - priorityOrder (ci_priority (snd b))
      else ci_timestamp (snd a) - ci_timestamp (snd b))"

text \<open>
  \<open>targetSize = maxCacheSize * 0.7\<close> is a product of doubles. The literal \<open>0.7\<close> is the
  double \<open>6305039478318694 / 2^53\<close>; the product of an integer (itself a double, so below
  \<open>2^53\<close> in size) with it is the exact product rounded to 53 significant bits, to the
  nearest and to even on a tie. \<open>bit_length\<close> counts the binary digits and
  \<open>round_half_even p k\<close> is the integer nearest to \<open>p / 2^k\<close>.
\<close>

definition significand_0_7 :: int where
  "significand_0_7 = 6305039478318694"

fun bit_length :: "nat \<Rightarrow> nat" where
  "bit_length n = (if n = 0 then 0 else Suc (bit_length (n div 2)))"

declare bit_length.simps [simp del]

definition round_half_even :: "int \<Rightarrow> nat \<Rightarrow> int" where
  "round_half_even p k =
     (let q = p div 2 ^ k; r = p mod 2 ^ k
      in if 2 * r < 2 ^ k then q
         else if 2 ^ k < 2 * r then q + 1
         else if even q then q else q + 1)"

definition nat_times_0_7 :: "nat \<Rightarrow> rat" where
  "nat_times_0_7 n =
     (let p = int n * significand_0_7;
          k = bit_length (nat p) - 53
      in of_int (round_half_even p k * 2 ^ k) / 2 ^ 53)"

definition times_0_7 :: "int \<Rightarrow> rat" where
  "times_0_7 n = (if n < 0 then - nat_times_0_7 (nat (- n)) else nat_times_0_7 (nat n))"

definition targetSize :: "'b cache_state \<Rightarrow> rat" where
  "targetSize s = times_0_7 (maxCacheSize s)"

text \<open>
  The loop of \<open>evictOldCache\<close> over the sorted snapshot: stop at the first entry reached
  with the running total at or below the target, else count it and delete it. The result
  is \<open>(deletedCount, deletedSize)\<close> and the new state.
\<close>

fun evict_loop :: "(string \<times> cacheInfo) list \<Rightarrow> nat \<times> int \<Rightarrow> 'b cache_state
    \<Rightarrow> (nat \<times> int) \<times> 'b cache_state" where
  "evict_loop [] acc s = (acc, s)"
| "evict_loop ((cacheKey, info) # es) (deletedCount, deletedSize) s =
     (if of_int (currentCacheSize s) \<le> targetSize s then ((deletedCount, deletedSize), s)
      else evict_loop es (deletedCount + 1, deletedSize + ci_size info)
             (deleteCacheEntry cacheKey s))"

definition evictOldCache :: "'b cache_state \<Rightarrow> (nat \<times> int) \<times> 'b cache_state" where
  "evictOldCache s = evict_loop (js_sort evict_cmp (cacheIndex s)) (0, 0) s"

text \<open>What the worker posts back: the \<open>result\<close> message, or the \<open>error\<close> message.\<close>

datatype cache_error = Gunzip_failed | JSON_parse_failed

record 'v cache_hit =
  hit_data :: 'v
  hit_key :: jsval
  hit_timestamp :: int
  hit_age :: int
  hit_size :: int
  hit_compressed :: bool

datatype 'v get_reply =
    Result_found "'v cache_hit"
  | Result_miss string
  | Error_reply cache_error

datatype set_reply = Set_ok string int bool

text \<open>
  The locals of \<open>setCacheData\<close>: the options with their defaults (24 hours, compressed,
  normal priority), the entry as it is serialised (\<open>size: 0\<close>), and the bytes written
  (gzipped on request).
\<close>

definition ttl_of :: "cache_options \<Rightarrow> int" where
  "ttl_of opts = (case opt_ttl opts of None \<Rightarrow> 24 * 60 * 60 * 1000 | Some t \<Rightarrow> t)"

definition compress_of :: "cache_options \<Rightarrow> bool" where
  "compress_of opts = (case opt_compress opts of None \<Rightarrow> True | Some c \<Rightarrow> c)"

definition priority_of :: "cache_options \<Rightarrow> priority" where
  "priority_of opts = (case opt_priority opts of None \<Rightarrow> Normal | Some p \<Rightarrow> p)"

definition new_cacheEntry :: "int \<Rightarrow> jsval \<Rightarrow> 'v \<Rightarrow> cache_options \<Rightarrow> 'v cacheEntry" where
  "new_cacheEntry now k v opts =
     \<lparr>ce_key = k, ce_value = v, ce_timestamp = now, ce_ttl = ttl_of opts,
      ce_compressed = compress_of opts, ce_priority = priority_of opts, ce_size = 0\<rparr>"

definition serializedData :: "('b, 'v) runtime \<Rightarrow> 'v cacheEntry \<Rightarrow> 'b" where
  "serializedData R entry =
     (if ce_compressed entry then gzip R (stringify R entry) else stringify R entry)"

text \<open>
  \<open>setCacheData\<close> at clock reading \<open>now\<close>: the file written, the index entry set, the
  written size added to the running total, and eviction when the total is then above the
  ceiling.
\<close>

definition setCacheData :: "('b, 'v) runtime \<Rightarrow> int \<Rightarrow> jsval \<Rightarrow> 'v \<Rightarrow> cache_options
    \<Rightarrow> 'b cache_state \<Rightarrow> set_reply \<times> 'b cache_state" where
  "setCacheData R now k v opts s =
     (let cacheKey = generateCacheKey R k;
          path = cacheFilePath (cacheDir s) cacheKey;
          entry = new_cacheEntry now k v opts;
          s1 = s\<lparr>files := (files s)(path \<mapsto> serializedData R entry)\<rparr>;
          stats_size = byte_length R (serializedData R entry);
          s2 = s1\<lparr>cacheIndex := Map_set (cacheIndex s1) cacheKey
                  \<lparr>ci_key = k, ci_timestamp = now, ci_ttl = ttl_of opts, ci_size = stats_size,
                   ci_compressed = compress_of opts, ci_priority = priority_of opts,
                   ci_filePath = path\<rparr>\<rparr>;
          s3 = s2\<lparr>currentCacheSize := currentCacheSize s2 + stats_size\<rparr>;
          s4 = (if currentCacheSize s3 > maxCacheSize s3 then snd (evictOldCache s3) else s3)
      in (Set_ok cacheKey stats_size (compress_of opts), s4))"

text \<open>
  \<open>getCacheData\<close> at clock reading \<open>now\<close>. A missing index entry and an expired one
  are misses (the expired one is deleted). Reading a file that does not exist raises
  \<open>ENOENT\<close>, which the handler turns into a miss after dropping the key from the index;
  any other exception (from \<open>gunzip\<close> or \<open>JSON.parse\<close>) goes to \<open>sendError\<close>.
\<close>

definition getCacheData :: "('b, 'v) runtime \<Rightarrow> int \<Rightarrow> jsval \<Rightarrow> 'b cache_state
    \<Rightarrow> 'v get_reply \<times> 'b cache_state" where
  "getCacheData R now k s =
     (let cacheKey = generateCacheKey R k in
      case Map_get (cacheIndex s) cacheKey of
        None \<Rightarrow> (Result_miss ''Cache miss'', s)
      | Some info \<Rightarrow>
          if now - ci_timestamp info > ci_ttl info
          then (Result_miss ''Cache expired'', deleteCacheEntry cacheKey s)
          else (case files s (ci_filePath info) of
                  None \<Rightarrow> (Result_miss ''Cache file not found'',
                            s\<lparr>cacheIndex := Map_delete (cacheIndex s) cacheKey\<rparr>)
                | Some raw \<Rightarrow>
                    (case (if ci_compressed info then gunzip R raw else Some raw) of
                       None \<Rightarrow> (Error_reply Gunzip_failed, s)
                     | Some cacheData \<Rightarrow>
                         (case parse R cacheData of
                            None \<Rightarrow> (Error_reply JSON_parse_failed, s)
                          | Some entry \<Rightarrow>
                              (Result_found
                                 \<lparr>hit_data = ce_value entry, hit_key = ce_key entry,
                                  hit_timestamp = ce_timestamp entry,
                                  hit_age = now - ce_timestamp entry,
                                  hit_size = ci_size info,
                                  hit_compressed = ci_compressed info\<rparr>, s)))))"


text \<open>
  The index is backed by the disk when it is a \<open>Map\<close> (distinct keys) and each entry's
  file exists at the path \<open>setCacheData\<close> gives it. The drift is what the running total
  counts beyond the indexed sizes: zero in an exact account, and more after a key was
  overwritten (\<open>setCacheData\<close> adds the new size without taking off the old one) or when
  the data directory holds files the index does not list.
\<close>

definition total_size :: "(string \<times> cacheInfo) list \<Rightarrow> int" where
  "total_size idx = sum_list (map (\<lambda>e. ci_size (snd e)) idx)"

definition files_backed :: "'b cache_state \<Rightarrow> bool" where
  "files_backed s \<longleftrightarrow>
     distinct (map fst (cacheIndex s)) \<and>
     list_all (\<lambda>e. ci_filePath (snd e) = cacheFilePath (cacheDir s) (fst e) \<and>
                    files s (ci_filePath (snd e)) \<noteq> None) (cacheIndex s)"

definition drift :: "'b cache_state \<Rightarrow> int" where
  "drift s = currentCacheSize s - total_size (cacheIndex s)"

text \<open>Every index entry names the file \<open>setCacheData\<close> writes for its key.\<close>

definition own_paths :: "'b cache_state \<Rightarrow> bool" where
  "own_paths s \<longleftrightarrow>
     list_all (\<lambda>e. ci_filePath (snd e) = cacheFilePath (cacheDir s) (fst e)) (cacheIndex s)"

text \<open>
  A stand-in runtime for concrete runs: file contents are an entry with a flag saying
  whether it is gzipped, \<open>gunzip\<close> rejects what is not gzipped, \<open>JSON.parse\<close> rejects
  what is, the digest is the identity and every file is 10 bytes long.
\<close>

definition demo_runtime :: "(bool \<times> jsval cacheEntry, jsval) runtime" where
  "demo_runtime =
     \<lparr>md5_hex = (\<lambda>x. x),
      gzip = (\<lambda>b. (True, snd b)),
      gunzip = (\<lambda>b. if fst b then Some (False, snd b) else None),
      stringify = (\<lambda>e. (False, e)),
      parse = (\<lambda>b. if fst b then None else Some (snd b)),
      byte_length = (\<lambda>b. 10)\<rparr>"

definition empty_cache :: "int \<Rightarrow> (bool \<times> jsval cacheEntry) cache_state" where
  "empty_cache limit =
     \<lparr>cacheDir = ''c'', maxCacheSize = limit, currentCacheSize = 0, cacheIndex = [],
      files = (\<lambda>p. None)\<rparr>"

definition no_options :: cache_options where
  "no_options = \<lparr>opt_ttl = None, opt_compress = None, opt_priority = None\<rparr>"

text \<open>Deleting a list of keys one after the other, as the eviction loop does.\<close>

fun delete_entries :: "string list \<Rightarrow> 'b cache_state \<Rightarrow> 'b cache_state" where
  "delete_entries [] s = s"
| "delete_entries (k # ks) s = delete_entries ks (deleteCacheEntry k s)"

text \<open>
  The eviction order as a relation: \<open>a\<close> goes before \<open>b\<close> when its priority is strictly
  lower, or equal with a timestamp that is not later.
\<close>

definition evict_le :: "string \<times> cacheInfo \<Rightarrow> string \<times> cacheInfo \<Rightarrow> bool" where
  "evict_le a b \<longleftrightarrow>
     priorityOrder (ci_priority (snd a)) < priorityOrder (ci_priority (snd b)) \<or>
     (ci_priority (snd a) = ci_priority (snd b) \<and> ci_timestamp (snd a) \<le> ci_timestamp (snd b))"

text \<open>A cache of three entries, 120 bytes under a ceiling of 100, for concrete runs.\<close>

definition demo_info :: "string \<Rightarrow> priority \<Rightarrow> int \<Rightarrow> int \<Rightarrow> string \<times> cacheInfo" where
  "demo_info k p ts sz =
     (k, \<lparr>ci_key = Str k, ci_timestamp = ts, ci_ttl = 1000, ci_size = sz, ci_compressed = False,
          ci_priority = p, ci_filePath = cacheFilePath ''c'' k\<rparr>)"

definition demo_full_cache :: "nat cache_state" where
  "demo_full_cache =
     \<lparr>cacheDir = ''c'', maxCacheSize = 100, currentCacheSize = 120,
      cacheIndex = [demo_info ''a'' Normal 5 40, demo_info ''b'' Low 9 30, demo_info ''k'' High 1 50],
      files = (\<lambda>p. if p \<in> {cacheFilePath ''c'' ''a'', cacheFilePath ''c'' ''b'', cacheFilePath ''c'' ''k''}
                    then Some 0 else None)\<rparr>"

text \<open>
  The same index with none of its files on disk any more; and a cache of 93 bytes under a
  ceiling of 90, which its first deletion brings to 63 bytes, 70 percent of the ceiling.
\<close>

definition ghost_cache :: "nat cache_state" where
  "ghost_cache = demo_full_cache\<lparr>files := (\<lambda>p. None)\<rparr>"

definition boundary_cache :: "nat cache_state" where
  "boundary_cache =
     \<lparr>cacheDir = ''c'', maxCacheSize = 90, currentCacheSize = 93,
      cacheIndex = [demo_info ''a'' Low 1 30, demo_info ''b'' Normal 2 3, demo_info ''k'' High 3 60],
      files = (\<lambda>p. if p \<in> {cacheFilePath ''c'' ''a'', cacheFilePath ''c'' ''b'', cacheFilePath ''c'' ''k''}
                    then Some 0 else None)\<rparr>"

text \<open>
  A cache under a ceiling of 100 bytes that holds one low-priority entry of 95 bytes (for
  the stand-in runtime, whose keys are their own digests).
\<close>

definition one_low_cache :: "(bool \<times> jsval cacheEntry) cache_state" where
  "one_low_cache =
     \<lparr>cacheDir = ''c'', maxCacheSize = 100, currentCacheSize = 95,
      cacheIndex = [demo_info ''old'' Low 0 95],
      files = (\<lambda>p. if p = cacheFilePath ''c'' ''old''
                    then Some (False, new_cacheEntry 0 (Str ''old'') (Str ''x'')
                                 \<lparr>opt_ttl = None, opt_compress = Some False, opt_priority = Some Low\<rparr>)
                    else None)\<rparr>"

text \<open>
  A cache whose only entry is indexed as compressed while its file holds bytes that are not
  gzipped, and one whose only entry is indexed as uncompressed while its file holds gzipped
  bytes (which do not parse).
\<close>

definition corrupt_cache :: "bool \<Rightarrow> (bool \<times> jsval cacheEntry) cache_state" where
  "corrupt_cache indexed_compressed =
     \<lparr>cacheDir = ''c'', maxCacheSize = 100, currentCacheSize = 10,
      cacheIndex = [(''k'', \<lparr>ci_key = Str ''k'', ci_timestamp = 0, ci_ttl = 1000, ci_size = 10,
                            ci_compressed = indexed_compressed, ci_priority = Normal,
                            ci_filePath = cacheFilePath ''c'' ''k''\<rparr>)],
      files = (\<lambda>p. if p = cacheFilePath ''c'' ''k''
                    then Some (\<not> indexed_compressed,
                               new_cacheEntry 0 (Str ''k'') (Str ''v'') no_options)
                    else None)\<rparr>"

section \<open>The task scheduler (\<open>WorkerPool\<close>)\<close>

text \<open>
  A task as \<open>executeTask\<close> builds it: its id, the executor kind it asks for (\<open>type\<close>),
  the message type sent to the executor (\<open>taskType\<close>), priority and creation time. The
  payload and the progress callback play no part in scheduling and are left out; the
  promise's \<open>resolve\<close> and \<open>reject\<close> are modelled by the pool's \<open>settled\<close> log.
\<close>

record task =
  t_id :: string
  t_type :: string
  t_taskType :: string
  t_priority :: priority
  t_createdAt :: int

text \<open>
  The \<open>workerInfo\<close> object. The thread handle and the timestamps are not modelled, and
  the idle timer (real time) is left out.
\<close>

record workerInfo =
  w_type :: string
  w_busy :: bool
  w_taskCount :: nat
  w_currentTask :: "task option"

datatype outcome = Resolved | Rejected

text \<open>
  The pool. The three \<open>Map\<close>s \<open>workers\<close>, \<open>availableWorkers\<close> and \<open>busyWorkers\<close>
  hold the same \<open>workerInfo\<close> objects under their ids, so they are kept as their key
  lists (in insertion order) over one store of objects, \<open>worker_objs\<close>. \<open>settled\<close>
  logs every call of a task's \<open>resolve\<close> or \<open>reject\<close>, \<open>terminated\<close> every
  \<open>worker.terminate()\<close> and \<open>posted\<close> every task message sent to an executor.
  \<open>suspended\<close> holds the calls of \<open>assignTask\<close> that wait at their \<open>await\<close>, in the
  order in which they will resume: each with the executor it has created and the task it
  took from the head of the queue before suspending.
\<close>

record pool =
  maxWorkers :: nat
  minWorkers :: nat
  worker_objs :: "string \<Rightarrow> workerInfo"
  workers :: "string list"
  availableWorkers :: "string list"
  busyWorkers :: "string list"
  taskQueue :: "task list"
  nextWorkerId :: nat
  isShuttingDown :: bool
  settled :: "(string \<times> outcome) list"
  terminated :: "string list"
  posted :: "(string \<times> string) list"
  suspended :: "(string \<times> task) list"

text \<open>\<open>Map.set\<close> and \<open>Map.delete\<close> on the keys of a \<open>Map\<close>.\<close>

definition keys_set :: "string list \<Rightarrow> string \<Rightarrow> string list" where
  "keys_set ks k = (if k \<in> set ks then ks else ks @ [k])"

definition keys_delete :: "string list \<Rightarrow> string \<Rightarrow> string list" where
  "keys_delete ks k = removeAll k ks"

definition workerTypes :: "string list" where
  "workerTypes = [''parser'', ''processor'', ''cache'']"

datatype pool_error = Pool_shutting_down | Unsupported_worker_type

text \<open>
  \<open>createWorker\<close>: refuses while shutting down and for an unknown kind; otherwise the
  new executor \<open>type-n\<close> is registered and available. Starting the thread
  (\<open>new Worker\<close>) is taken to succeed.
\<close>

definition createWorker :: "string \<Rightarrow> pool \<Rightarrow> pool_error + (string \<times> pool)" where
  "createWorker type s =
     (if isShuttingDown s then Inl Pool_shutting_down
      else if type \<notin> set workerTypes then Inl Unsupported_worker_type
      else
        (let workerId = type @ ''-'' @ show_nat (nextWorkerId s);
             info = \<lparr>w_type = type, w_busy = False, w_taskCount = 0, w_currentTask = None\<rparr>
         in Inr (workerId,
                 s\<lparr>nextWorkerId := nextWorkerId s + 1,
                   worker_objs := (worker_objs s)(workerId := info),
                   workers := keys_set (workers s) workerId,
                   availableWorkers := keys_set (availableWorkers s) workerId\<rparr>)))"

text \<open>
  \<open>findAvailableWorker\<close>: the first available executor of the asked kind; when there is
  none, the first available executor of any kind.
\<close>

definition findAvailableWorker :: "pool \<Rightarrow> string \<Rightarrow> string option" where
  "findAvailableWorker s type =
     (case List.find (\<lambda>workerId. w_type (worker_objs s workerId) = type) (availableWorkers s) of
        Some workerId \<Rightarrow> Some workerId
      | None \<Rightarrow> (case availableWorkers s of [] \<Rightarrow> None | workerId # _ \<Rightarrow> Some workerId))"

definition assignTaskToWorker :: "string \<Rightarrow> task \<Rightarrow> pool \<Rightarrow> pool" where
  "assignTaskToWorker workerId t s =
     s\<lparr>worker_objs := (worker_objs s)(workerId :=
           (worker_objs s workerId)\<lparr>w_busy := True, w_currentTask := Some t,
              w_taskCount := w_taskCount (worker_objs s workerId) + 1\<rparr>),
       availableWorkers := keys_delete (availableWorkers s) workerId,
       busyWorkers := keys_set (busyWorkers s) workerId,
       posted := posted s @ [(workerId, t_id t)]\<rparr>"

text \<open>
  \<open>assignTask\<close> is an \<open>async\<close> function. Up to its \<open>await\<close> it runs at once: it
  reads the task at the head of the queue and looks for an available executor; when it finds
  one it shifts the queue and hands the task over, and never suspends. When there is none
  and the pool is below \<open>maxWorkers\<close> it calls \<open>createWorker\<close>, which runs to its end
  at once, so that the new executor is already registered and available when \<open>assignTask\<close>
  suspends at the \<open>await\<close>, with the task still in the queue. A refused creation resumes
  in the \<open>catch\<close>, which returns, and is not recorded.
\<close>

definition assignTask :: "pool \<Rightarrow> pool" where
  "assignTask s =
     (case taskQueue s of
        [] \<Rightarrow> s
      | t # rest \<Rightarrow>
          (case findAvailableWorker s (t_type t) of
             Some workerId \<Rightarrow> assignTaskToWorker workerId t (s\<lparr>taskQueue := rest\<rparr>)
           | None \<Rightarrow>
               if length (workers s) < maxWorkers s
               then (case createWorker (t_type t) s of
                       Inl err \<Rightarrow> s
                     | Inr (workerId, s') \<Rightarrow> s'\<lparr>suspended := suspended s' @ [(workerId, t)]\<rparr>)
               else s))"

text \<open>
  The rest of \<open>assignTask\<close>, after the \<open>await\<close>: \<open>taskQueue.shift()\<close> drops whatever
  is at the head of the queue by then (nothing, on an empty queue), and the task read before
  the suspension is handed to the executor created before the suspension.
\<close>

definition resume_assignTask :: "string \<Rightarrow> task \<Rightarrow> pool \<Rightarrow> pool" where
  "resume_assignTask workerId t s = assignTaskToWorker workerId t (s\<lparr>taskQueue := tl (taskQueue s)\<rparr>)"

text \<open>
  When the code that is running has finished, the suspended calls resume one after the
  other, before any further event is handled.
\<close>

definition end_of_turn :: "pool \<Rightarrow> pool" where
  "end_of_turn s =
     (fold (\<lambda>(workerId, t). resume_assignTask workerId t) (suspended s) s)\<lparr>suspended := []\<rparr>"

text \<open>
  An assignment pass that nothing interrupts: \<open>assignTask\<close> up to its suspension,
  followed at once by its resumption.
\<close>

definition assignment_pass :: "pool \<Rightarrow> pool" where
  "assignment_pass s = end_of_turn (assignTask s)"

text \<open>The comparator of \<open>executeTask\<close>'s sort: the higher priority first.\<close>

fun taskPriorityOrder :: "priority \<Rightarrow> int" where
  "taskPriorityOrder High = 3"
| "taskPriorityOrder Normal = 2"
| "taskPriorityOrder Low = 1"

definition queue_cmp :: "task \<Rightarrow> task \<Rightarrow> int" where
  "queue_cmp a b = taskPriorityOrder (t_priority b) - taskPriorityOrder (t_priority a)"

text \<open>\<open>executeTask\<close>: push the task, sort the queue by priority, run an assignment pass.\<close>

definition enqueue :: "task \<Rightarrow> task list \<Rightarrow> task list" where
  "enqueue t q = js_sort queue_cmp (q @ [t])"

definition executeTask :: "task \<Rightarrow> pool \<Rightarrow> pool" where
  "executeTask t s = assignTask (s\<lparr>taskQueue := enqueue t (taskQueue s)\<rparr>)"

definition releaseWorker :: "string \<Rightarrow> pool \<Rightarrow> pool" where
  "releaseWorker workerId s =
     s\<lparr>worker_objs := (worker_objs s)(workerId :=
           (worker_objs s workerId)\<lparr>w_busy := False, w_currentTask := None\<rparr>),
       busyWorkers := keys_delete (busyWorkers s) workerId,
       availableWorkers := keys_set (availableWorkers s) workerId\<rparr>"

definition completeTask :: "string \<Rightarrow> task \<Rightarrow> pool \<Rightarrow> pool" where
  "completeTask workerId t s =
     assignTask ((releaseWorker workerId s)\<lparr>settled := settled s @ [(t_id t, Resolved)]\<rparr>)"

definition failTask :: "string \<Rightarrow> task \<Rightarrow> pool \<Rightarrow> pool" where
  "failTask workerId t s =
     assignTask ((releaseWorker workerId s)\<lparr>settled := settled s @ [(t_id t, Rejected)]\<rparr>)"

text \<open>
  \<open>removeWorker\<close>, and the handlers of an executor's \<open>error\<close> and \<open>exit\<close> events.
  \<open>removeWorker\<close> calls \<open>terminate\<close> only on an executor without a thread id, which a
  started executor always has, so that it terminates nothing. \<open>recreateWorker\<close> swallows
  the exception of a refused \<open>createWorker\<close>; what follows its \<open>await\<close> changes
  nothing.
\<close>

definition removeWorker :: "string \<Rightarrow> pool \<Rightarrow> pool" where
  "removeWorker workerId s =
     (if workerId \<in> set (workers s)
      then s\<lparr>workers := keys_delete (workers s) workerId,
             availableWorkers := keys_delete (availableWorkers s) workerId,
             busyWorkers := keys_delete (busyWorkers s) workerId\<rparr>
      else s)"

definition recreateWorker :: "string \<Rightarrow> pool \<Rightarrow> pool" where
  "recreateWorker workerId s =
     (case createWorker (w_type (worker_objs s workerId)) s of
        Inl err \<Rightarrow> s
      | Inr (new_id, s') \<Rightarrow> s')"

definition handleWorkerError :: "string \<Rightarrow> pool \<Rightarrow> pool" where
  "handleWorkerError workerId s =
     recreateWorker workerId
       (case w_currentTask (worker_objs s workerId) of
          None \<Rightarrow> s
        | Some t \<Rightarrow> failTask workerId t s)"

definition handleWorkerExit :: "string \<Rightarrow> int \<Rightarrow> pool \<Rightarrow> pool" where
  "handleWorkerExit workerId code s =
     (let s1 = removeWorker workerId s
      in if code \<noteq> 0 \<and> \<not> isShuttingDown s1 then recreateWorker workerId s1 else s1)"

text \<open>
  What can happen while \<open>shutdown\<close> waits: an executor posts the result or the error of
  a message id (\<open>handleTaskResult\<close>, \<open>handleTaskError\<close>: acted on only when it is the
  id of the executor's current task), an executor raises \<open>error\<close> or exits, or a caller
  submits a task. \<open>Poll\<close> is the waiting loop waking up. Each event is handled to its
  end, and the calls of \<open>assignTask\<close> it has left suspended then resume.
\<close>

datatype pool_event =
    Poll
  | Worker_result string string
  | Worker_error string string
  | Worker_crashed string
  | Worker_exited string int
  | Submit task

definition handleTaskResult :: "string \<Rightarrow> string \<Rightarrow> pool \<Rightarrow> pool" where
  "handleTaskResult workerId messageId s =
     (case w_currentTask (worker_objs s workerId) of
        None \<Rightarrow> s
      | Some t \<Rightarrow> if t_id t = messageId then completeTask workerId t s else s)"

definition handleTaskError :: "string \<Rightarrow> string \<Rightarrow> pool \<Rightarrow> pool" where
  "handleTaskError workerId messageId s =
     (case w_currentTask (worker_objs s workerId) of
        None \<Rightarrow> s
      | Some t \<Rightarrow> if t_id t = messageId then failTask workerId t s else s)"

fun dispatch :: "pool_event \<Rightarrow> pool \<Rightarrow> pool" where
  "dispatch Poll s = s"
| "dispatch (Worker_result w m) s = handleTaskResult w m s"
| "dispatch (Worker_error w m) s = handleTaskError w m s"
| "dispatch (Worker_crashed w) s = handleWorkerError w s"
| "dispatch (Worker_exited w code) s = handleWorkerExit w code s"
| "dispatch (Submit t) s = executeTask t s"

definition handle_event :: "pool_event \<Rightarrow> pool \<Rightarrow> pool" where
  "handle_event ev s = end_of_turn (dispatch ev s)"

definition run_events :: "pool_event list \<Rightarrow> pool \<Rightarrow> pool" where
  "run_events evs s = fold handle_event evs s"

text \<open>
  The waiting loop of \<open>shutdown\<close>, over the events that occur while it runs: it returns
  at the first look that finds no busy executor, and \<open>None\<close> is the loop that waits for
  ever (executors still busy and nothing more to come). A look that finds a busy executor
  suspends \<open>shutdown\<close>, which lets the suspended calls of \<open>assignTask\<close> resume.
\<close>

fun shutdown_wait :: "pool_event list \<Rightarrow> pool \<Rightarrow> pool option" where
  "shutdown_wait [] s = (if busyWorkers s = [] then Some s else None)"
| "shutdown_wait (ev # evs) s =
     (if ev = Poll then (if busyWorkers s = [] then Some s else shutdown_wait evs (end_of_turn s))
      else shutdown_wait evs (handle_event ev s))"

text \<open>
  After the loop every registered executor is told to terminate; \<open>shutdown\<close> then waits
  for the terminations, while further events can be handled (\<open>window\<close>); last, the three
  \<open>Map\<close>s are cleared and the queue is truncated.
\<close>

definition terminate_all :: "pool \<Rightarrow> pool" where
  "terminate_all s = s\<lparr>terminated := terminated s @ workers s\<rparr>"

definition shutdown_clear :: "pool \<Rightarrow> pool" where
  "shutdown_clear s = s\<lparr>workers := [], availableWorkers := [], busyWorkers := [], taskQueue := []\<rparr>"

definition shutdown :: "pool_event list \<Rightarrow> pool_event list \<Rightarrow> pool \<Rightarrow> pool option" where
  "shutdown evs window s =
     (case shutdown_wait (Poll # evs) (s\<lparr>isShuttingDown := True\<rparr>) of
        None \<Rightarrow> None
      | Some w \<Rightarrow> Some (shutdown_clear (run_events window (end_of_turn (terminate_all w)))))"

text \<open>The state of a task's promise, read off the log.\<close>

definition promise_of :: "pool \<Rightarrow> string \<Rightarrow> outcome option" where
  "promise_of s task_id = map_of (settled s) task_id"

text \<open>
  The bookkeeping every state reached from the constructor has: the current task of an
  executor was posted to it, and a settled promise is the promise of a posted task.
\<close>

definition accounted :: "pool \<Rightarrow> bool" where
  "accounted s \<longleftrightarrow>
     (\<forall>w t. w_currentTask (worker_objs s w) = Some t \<longrightarrow> (w, t_id t) \<in> set (posted s)) \<and>
     (\<forall>i\<in>fst ` set (settled s). i \<in> snd ` set (posted s))"

text \<open>
  The tasks that an event list submits; and task ids as \<open>executeTask\<close> draws them: the
  queued tasks and the ones still to be submitted have ids of their own, none of which was
  posted to an executor yet.
\<close>

fun submitted :: "pool_event list \<Rightarrow> task list" where
  "submitted [] = []"
| "submitted (Submit t # evs) = t # submitted evs"
| "submitted (ev # evs) = submitted evs"

definition fresh_tasks :: "pool \<Rightarrow> task list \<Rightarrow> bool" where
  "fresh_tasks s ts \<longleftrightarrow>
     distinct (map t_id (taskQueue s @ ts)) \<and>
     (\<forall>t\<in>set (taskQueue s @ ts). t_id t \<notin> snd ` set (posted s))"

text \<open>Each of the tasks is either in the queue or was posted to an executor.\<close>

definition tracked :: "task list \<Rightarrow> pool \<Rightarrow> bool" where
  "tracked ts s \<longleftrightarrow> (\<forall>t\<in>set ts. t \<in> set (taskQueue s) \<or> t_id t \<in> snd ` set (posted s))"

text \<open>
  What holds of the pool throughout a shutdown that starts from such a state with no call
  of \<open>assignTask\<close> suspended: \<open>T\<close> are the tasks followed, \<open>F\<close> the tasks still to be
  submitted.
\<close>

definition shutdown_inv :: "task list \<Rightarrow> task list \<Rightarrow> pool \<Rightarrow> bool" where
  "shutdown_inv T F s \<longleftrightarrow>
     isShuttingDown s \<and> suspended s = [] \<and> accounted s \<and> fresh_tasks s F \<and> tracked T s"

text \<open>
  The order \<open>executeTask\<close> keeps the queue in: no task stands behind one of lower
  priority.
\<close>

definition queue_sorted :: "task list \<Rightarrow> bool" where
  "queue_sorted q \<longleftrightarrow>
     sorted_wrt (\<lambda>a b. taskPriorityOrder (t_priority b) \<le> taskPriorityOrder (t_priority a)) q"

text \<open>
  A pool as \<open>initialize\<close> leaves it with \<open>minWorkers = 1\<close> (one idle \<open>processor\<close>
  executor), here with room for four and one queued task for a \<open>parser\<close>; and a pool with no
  executor at all and one queued task.
\<close>

definition demo_task :: "string \<Rightarrow> string \<Rightarrow> priority \<Rightarrow> task" where
  "demo_task i type p =
     \<lparr>t_id = i, t_type = type, t_taskType = ''parse-excel'', t_priority = p, t_createdAt = 0\<rparr>"

definition idle_info :: "string \<Rightarrow> workerInfo" where
  "idle_info type = \<lparr>w_type = type, w_busy = False, w_taskCount = 0, w_currentTask = None\<rparr>"

definition demo_pool :: pool where
  "demo_pool =
     \<lparr>maxWorkers = 4, minWorkers = 1,
      worker_objs = (\<lambda>w. idle_info ''processor''),
      workers = [''processor-1''], availableWorkers = [''processor-1''], busyWorkers = [],
      taskQueue = [demo_task ''t1'' ''parser'' Normal],
      nextWorkerId = 2, isShuttingDown = False, settled = [], terminated = [], posted = [], suspended = []\<rparr>"

definition empty_pool :: pool where
  "empty_pool =
     \<lparr>maxWorkers = 4, minWorkers = 1,
      worker_objs = (\<lambda>w. idle_info ''processor''),
      workers = [], availableWorkers = [], busyWorkers = [],
      taskQueue = [demo_task ''t1'' ''parser'' Normal],
      nextWorkerId = 1, isShuttingDown = False, settled = [], terminated = [], posted = [], suspended = []\<rparr>"

text \<open>
  A pool as the constructor leaves it, with room for \<open>mx\<close> executors; and the pool with
  room for one executor after two tasks were submitted to it one after the other, each by
  a caller of its own.
\<close>

definition fresh_pool :: "nat \<Rightarrow> pool" where
  "fresh_pool mx =
     \<lparr>maxWorkers = mx, minWorkers = 1,
      worker_objs = (\<lambda>w. idle_info ''processor''),
      workers = [], availableWorkers = [], busyWorkers = [], taskQueue = [],
      nextWorkerId = 1, isShuttingDown = False, settled = [], terminated = [], posted = [],
      suspended = []\<rparr>"

definition two_tasks_pool :: pool where
  "two_tasks_pool =
     run_events [Submit (demo_task ''t1'' ''parser'' Normal), Submit (demo_task ''t2'' ''parser'' Normal)]
       (fresh_pool 1)"

section \<open>The data processor (\<open>DataProcessorWorker\<close>)\<close>

text \<open>
  A row is an object from column names to cells; reading a column the row does not have
  gives \<open>undefined\<close>.
\<close>

type_synonym row = "(string \<times> jsval) list"

definition cell :: "row \<Rightarrow> string \<Rightarrow> jsval" where
  "cell r column = (case map_of r column of None \<Rightarrow> Undefined | Some v \<Rightarrow> v)"

text \<open>
  The result of a numeric conversion or subtraction: a number (exact here, where the code
  has a double), an infinity, or \<open>NaN\<close>.
\<close>

datatype jsnum = NaN | NegInf | Fin rat | PosInf

text \<open>
  What the processor takes from the JavaScript runtime: \<open>Number(s)\<close> and
  \<open>new Date(s).getTime()\<close> of a string (\<open>None\<close> is the invalid date),
  \<open>localeCompare\<close>, \<open>toLowerCase\<close>, and \<open>new RegExp(v, 'i').test(s)\<close> (\<open>None\<close> when
  the constructor throws).
\<close>

record platform =
  parseNumber :: "string \<Rightarrow> jsnum"
  parseDate :: "string \<Rightarrow> int option"
  localeCompare :: "string \<Rightarrow> string \<Rightarrow> int"
  toLowerCase :: "string \<Rightarrow> string"
  regexTest :: "jsval \<Rightarrow> string \<Rightarrow> bool option"

fun toNumber :: "platform \<Rightarrow> jsval \<Rightarrow> jsnum" where
  "toNumber P Undefined = NaN"
| "toNumber P Null = Fin 0"
| "toNumber P (Bool b) = Fin (if b then 1 else 0)"
| "toNumber P (Num n) = Fin (of_int n)"
| "toNumber P (Str s) = parseNumber P s"
| "toNumber P (Arr xs) = parseNumber P (String_js (Arr xs))"

text \<open>\<open>new Date(v).getTime()\<close>; a time value beyond 8.64e15 ms is an invalid date.\<close>

fun toTime :: "platform \<Rightarrow> jsval \<Rightarrow> int option" where
  "toTime P Undefined = None"
| "toTime P Null = Some 0"
| "toTime P (Bool b) = Some (if b then 1 else 0)"
| "toTime P (Num n) = (if \<bar>n\<bar> \<le> 8640000000000000 then Some n else None)"
| "toTime P (Str s) = parseDate P s"
| "toTime P (Arr xs) = parseDate P (String_js (Arr xs))"

fun num_sub :: "jsnum \<Rightarrow> jsnum \<Rightarrow> jsnum" where
  "num_sub NaN y = NaN"
| "num_sub x NaN = NaN"
| "num_sub (Fin a) (Fin b) = Fin (a - b)"
| "num_sub PosInf PosInf = NaN"
| "num_sub NegInf NegInf = NaN"
| "num_sub PosInf y = PosInf"
| "num_sub NegInf y = NegInf"
| "num_sub (Fin a) PosInf = NegInf"
| "num_sub (Fin a) NegInf = PosInf"

fun num_neg :: "jsnum \<Rightarrow> jsnum" where
  "num_neg NaN = NaN"
| "num_neg NegInf = PosInf"
| "num_neg (Fin a) = Fin (- a)"
| "num_neg PosInf = NegInf"

fun num_add :: "jsnum \<Rightarrow> jsnum \<Rightarrow> jsnum" where
  "num_add x y = num_sub x (num_neg y)"

text \<open>\<open>x < y\<close> and \<open>x <= y\<close> on numbers: false as soon as one side is \<open>NaN\<close>.\<close>

fun num_lt :: "jsnum \<Rightarrow> jsnum \<Rightarrow> bool" where
  "num_lt NaN y = False"
| "num_lt x NaN = False"
| "num_lt (Fin a) (Fin b) = (a < b)"
| "num_lt x NegInf = False"
| "num_lt NegInf y = True"
| "num_lt PosInf y = False"
| "num_lt (Fin a) PosInf = True"

definition num_le :: "jsnum \<Rightarrow> jsnum \<Rightarrow> bool" where
  "num_le x y \<longleftrightarrow> x \<noteq> NaN \<and> y \<noteq> NaN \<and> (x = y \<or> num_lt x y)"


subsection \<open>Filtering\<close>

record condition =
  c_column :: string
  c_operator :: string
  c_value :: jsval

definition falsy :: "jsval \<Rightarrow> bool" where
  "falsy v \<longleftrightarrow> v = Undefined \<or> v = Null \<or> v = Bool False \<or> v = Num 0 \<or> v = Str []"

text \<open>\<open>String(v || '')\<close>.\<close>

definition string_or_empty :: "jsval \<Rightarrow> string" where
  "string_or_empty v = (if falsy v then [] else String_js v)"

text \<open>The six operators \<open>evaluateConditions\<close> passes to \<open>compareValues\<close>.\<close>

datatype cmp_op = Op_eq | Op_ne | Op_gt | Op_ge | Op_lt | Op_le

fun num_rel :: "cmp_op \<Rightarrow> jsnum \<Rightarrow> jsnum \<Rightarrow> bool" where
  "num_rel Op_eq x y = (x = y)"
| "num_rel Op_ne x y = (x \<noteq> y)"
| "num_rel Op_gt x y = num_lt y x"
| "num_rel Op_ge x y = num_le y x"
| "num_rel Op_lt x y = num_lt x y"
| "num_rel Op_le x y = num_le x y"

fun ord_rel :: "cmp_op \<Rightarrow> 'a::linorder \<Rightarrow> 'a \<Rightarrow> bool" where
  "ord_rel Op_eq x y = (x = y)"
| "ord_rel Op_ne x y = (x \<noteq> y)"
| "ord_rel Op_gt x y = (y < x)"
| "ord_rel Op_ge x y = (y \<le> x)"
| "ord_rel Op_lt x y = (x < y)"
| "ord_rel Op_le x y = (x \<le> y)"

text \<open>
  \<open>compareValues\<close>: as numbers when neither side is \<open>NaN\<close>, else as dates when both are
  valid, else as the strings \<open>String(a || '')\<close> and \<open>String(b || '')\<close>, compared code
  unit by code unit.
\<close>

definition compareValues :: "platform \<Rightarrow> jsval \<Rightarrow> jsval \<Rightarrow> cmp_op \<Rightarrow> bool" where
  "compareValues P a b operator =
     (if toNumber P a \<noteq> NaN \<and> toNumber P b \<noteq> NaN
      then num_rel operator (toNumber P a) (toNumber P b)
      else (case (toTime P a, toTime P b) of
              (Some dateA, Some dateB) \<Rightarrow> ord_rel operator dateA dateB
            | _ \<Rightarrow> ord_rel operator (string_or_empty a) (string_or_empty b)))"

text \<open>\<open>Array.prototype.includes\<close> compares primitives by value; an array equals only itself.\<close>

definition array_includes :: "jsval list \<Rightarrow> jsval \<Rightarrow> bool" where
  "array_includes xs v \<longleftrightarrow> (case v of Arr _ \<Rightarrow> False | _ \<Rightarrow> v \<in> set xs)"

text \<open>One condition of \<open>evaluateConditions\<close>, by its operator; an unknown operator passes.\<close>

definition eval_condition :: "platform \<Rightarrow> row \<Rightarrow> condition \<Rightarrow> bool" where
  "eval_condition P r c =
     (let cellValue = cell r (c_column c); v = c_value c; operator = c_operator c in
      if operator = ''equals'' then compareValues P cellValue v Op_eq
      else if operator = ''not_equals'' then compareValues P cellValue v Op_ne
      else if operator = ''greater_than'' then compareValues P cellValue v Op_gt
      else if operator = ''greater_than_or_equal'' then compareValues P cellValue v Op_ge
      else if operator = ''less_than'' then compareValues P cellValue v Op_lt
      else if operator = ''less_than_or_equal'' then compareValues P cellValue v Op_le
      else if operator = ''contains''
        then sublist (toLowerCase P (string_or_empty v)) (toLowerCase P (string_or_empty cellValue))
      else if operator = ''not_contains''
        then \<not> sublist (toLowerCase P (string_or_empty v)) (toLowerCase P (string_or_empty cellValue))
      else if operator = ''starts_with''
        then prefix (toLowerCase P (string_or_empty v)) (toLowerCase P (string_or_empty cellValue))
      else if operator = ''ends_with''
        then suffix (toLowerCase P (string_or_empty v)) (toLowerCase P (string_or_empty cellValue))
      else if operator = ''is_empty'' then falsy cellValue
      else if operator = ''is_not_empty'' then \<not> falsy cellValue
      else if operator = ''in_list''
        then (case v of Arr xs \<Rightarrow> array_includes xs cellValue | _ \<Rightarrow> False)
      else if operator = ''not_in_list''
        then (case v of Arr xs \<Rightarrow> \<not> array_includes xs cellValue | _ \<Rightarrow> False)
      else if operator = ''between''
        then (case v of
                Arr [lo, hi] \<Rightarrow> num_le (toNumber P lo) (toNumber P cellValue) \<and>
                                num_le (toNumber P cellValue) (toNumber P hi)
              | _ \<Rightarrow> False)
      else if operator = ''regex''
        then (case regexTest P v (string_or_empty cellValue) of None \<Rightarrow> False | Some b \<Rightarrow> b)
      else True)"

text \<open>\<open>evaluateConditions\<close>: every condition holds (an empty list passes).\<close>

definition evaluateConditions :: "platform \<Rightarrow> row \<Rightarrow> condition list \<Rightarrow> bool" where
  "evaluateConditions P r conditions =
     (if conditions = [] then True else list_all (eval_condition P r) conditions)"

text \<open>\<open>filterData\<close>: the rows that pass, pushed in the order they are met.\<close>

fun filter_loop :: "platform \<Rightarrow> condition list \<Rightarrow> row list \<Rightarrow> row list \<Rightarrow> row list" where
  "filter_loop P conditions [] result = result"
| "filter_loop P conditions (r # dataset) result =
     filter_loop P conditions dataset
       (if evaluateConditions P r conditions then result @ [r] else result)"

definition filterData :: "platform \<Rightarrow> row list \<Rightarrow> condition list \<Rightarrow> row list" where
  "filterData P dataset conditions = filter_loop P conditions dataset []"

subsection \<open>Sorting\<close>

record sort_column =
  s_column :: string
  s_direction :: "string option"

definition direction_of :: "sort_column \<Rightarrow> string" where
  "direction_of k = (case s_direction k of None \<Rightarrow> ''asc'' | Some d \<Rightarrow> d)"







subsection \<open>Aggregating\<close>

record aggregation =
  a_function :: string
  a_column :: string
  a_alias :: "string option"

text \<open>\<open>agg.alias || `${agg.function}_${agg.column}`\<close>.\<close>

definition alias_of :: "aggregation \<Rightarrow> string" where
  "alias_of agg =
     (case a_alias agg of
        None \<Rightarrow> a_function agg @ ''_'' @ a_column agg
      | Some al \<Rightarrow> if al = [] then a_function agg @ ''_'' @ a_column agg else al)"

text \<open>A property of an output row: a cell copied from the input, or an aggregated number.\<close>

datatype outval = Cell jsval | Number jsnum

record row_group =
  g_data :: "(string \<times> outval) list"
  g_count :: nat
  g_values :: "(string \<times> jsval list) list"

text \<open>
  The composite key: the cells of the \<open>groupBy\<close> columns joined with \<open>|\<close> (\<open>null\<close> and
  \<open>undefined\<close> joining as the empty string), or \<open>all\<close> without \<open>groupBy\<close> columns.
\<close>

definition groupKey :: "string list \<Rightarrow> row \<Rightarrow> string" where
  "groupKey groupBy r =
     (if groupBy \<noteq> [] then join_strings ''|'' (map (\<lambda>col. join_elem (cell r col)) groupBy)
      else ''all'')"

definition initializeAggregation :: "string \<Rightarrow> outval" where
  "initializeAggregation func =
     (if func = ''sum'' \<or> func = ''count'' then Number (Fin 0)
      else if func = ''min'' then Number PosInf
      else if func = ''max'' then Number NegInf
      else if func = ''avg'' then Number (Fin 0)
      else Cell Null)"

text \<open>The number an accumulator stands for in \<open>+\<close> and \<open>Math.min\<close>.\<close>

fun as_number :: "platform \<Rightarrow> outval \<Rightarrow> jsnum" where
  "as_number P (Number x) = x"
| "as_number P (Cell v) = toNumber P v"

definition num_min :: "jsnum \<Rightarrow> jsnum \<Rightarrow> jsnum" where
  "num_min x y = (if x = NaN \<or> y = NaN then NaN else if num_lt y x then y else x)"

definition num_max :: "jsnum \<Rightarrow> jsnum \<Rightarrow> jsnum" where
  "num_max x y = (if x = NaN \<or> y = NaN then NaN else if num_lt x y then y else x)"

definition updateAggregation :: "platform \<Rightarrow> outval \<Rightarrow> jsval \<Rightarrow> string \<Rightarrow> nat \<Rightarrow> outval" where
  "updateAggregation P current v func group_count =
     (let numValue = toNumber P v in
      if func = ''sum''
        then Number (num_add (as_number P current) (if numValue = NaN then Fin 0 else numValue))
      else if func = ''count'' then Number (Fin (of_nat group_count))
      else if func = ''min''
        then Number (num_min (as_number P current) (if numValue = NaN then PosInf else numValue))
      else if func = ''max''
        then Number (num_max (as_number P current) (if numValue = NaN then NegInf else numValue))
      else current)"

text \<open>The object a new group starts with: the \<open>groupBy\<close> cells, then the initial accumulators.\<close>

definition new_groupData :: "string list \<Rightarrow> aggregation list \<Rightarrow> row \<Rightarrow> (string \<times> outval) list" where
  "new_groupData groupBy aggregations r =
     foldl (\<lambda>d agg. Map_set d (alias_of agg) (initializeAggregation (a_function agg)))
       (foldl (\<lambda>d col. Map_set d col (Cell (cell r col))) [] groupBy)
       aggregations"

text \<open>One aggregation applied to the row's group: the value is recorded and the accumulator updated.\<close>

definition update_group :: "platform \<Rightarrow> row \<Rightarrow> row_group \<Rightarrow> aggregation \<Rightarrow> row_group" where
  "update_group P r g agg =
     (let alias = alias_of agg;
          v = cell r (a_column agg);
          vals = (case Map_get (g_values g) alias of None \<Rightarrow> [] | Some vs \<Rightarrow> vs);
          current = (case Map_get (g_data g) alias of None \<Rightarrow> Cell Undefined | Some c \<Rightarrow> c)
      in g\<lparr>g_values := Map_set (g_values g) alias (vals @ [v]),
           g_data := Map_set (g_data g) alias
                       (updateAggregation P current v (a_function agg) (g_count g))\<rparr>)"

text \<open>The body of the grouping loop for one row.\<close>

definition add_row :: "platform \<Rightarrow> aggregation list \<Rightarrow> string list \<Rightarrow> (string \<times> row_group) list
    \<Rightarrow> row \<Rightarrow> (string \<times> row_group) list" where
  "add_row P aggregations groupBy groups r =
     (let k = groupKey groupBy r;
          g = (case Map_get groups k of
                 None \<Rightarrow> \<lparr>g_data = new_groupData groupBy aggregations r, g_count = 0, g_values = []\<rparr>
               | Some g0 \<Rightarrow> g0);
          g1 = g\<lparr>g_count := g_count g + 1\<rparr>
      in Map_set groups k (foldl (update_group P r) g1 aggregations))"

definition num_div :: "jsnum \<Rightarrow> nat \<Rightarrow> jsnum" where
  "num_div x n = (case x of Fin a \<Rightarrow> Fin (a / of_nat n) | _ \<Rightarrow> x)"

text \<open>The output row of a group: its data, with each average computed from the recorded values.\<close>

definition finalize_group :: "platform \<Rightarrow> aggregation list \<Rightarrow> row_group \<Rightarrow> (string \<times> outval) list" where
  "finalize_group P aggregations g =
     foldl (\<lambda>d agg.
              if a_function agg = ''avg''
              then (let vals = (case Map_get (g_values g) (alias_of agg) of None \<Rightarrow> [] | Some vs \<Rightarrow> vs);
                        validValues = filter (\<lambda>v. v \<noteq> Null \<and> v \<noteq> Undefined \<and> toNumber P v \<noteq> NaN) vals
                    in Map_set d (alias_of agg)
                         (if validValues \<noteq> []
                          then Number (num_div (foldl (\<lambda>acc v. num_add acc (toNumber P v)) (Fin 0) validValues)
                                         (length validValues))
                          else Cell Null))
              else d)
       (g_data g) aggregations"

definition group_rows :: "platform \<Rightarrow> row list \<Rightarrow> aggregation list \<Rightarrow> string list
    \<Rightarrow> (string \<times> row_group) list" where
  "group_rows P dataset aggregations groupBy = foldl (add_row P aggregations groupBy) [] dataset"

definition aggregateData :: "platform \<Rightarrow> row list \<Rightarrow> aggregation list \<Rightarrow> string list
    \<Rightarrow> (string \<times> outval) list list" where
  "aggregateData P dataset aggregations groupBy =
     map (\<lambda>e. finalize_group P aggregations (snd e)) (group_rows P dataset aggregations groupBy)"

text \<open>
  A stand-in platform for concrete runs on plain ASCII data: strings of decimal digits are
  numbers, no string is a date, \<open>localeCompare\<close> is the order of the code units, letters
  keep their case and no pattern matches.
\<close>

definition demo_platform :: platform where
  "demo_platform =
     \<lparr>parseNumber = (\<lambda>s. if s \<noteq> [] \<and> list_all (\<lambda>c. c \<in> set ''0123456789'') s
                           then Fin (of_nat (foldl (\<lambda>n c. 10 * n + (of_char c - 48)) 0 s)) else NaN),
      parseDate = (\<lambda>s. None),
      localeCompare = (\<lambda>a b. if a < b then - 1 else if a = b then 0 else 1),
      toLowerCase = (\<lambda>s. s),
      regexTest = (\<lambda>v s. Some False)\<rparr>"


definition asc :: "string \<Rightarrow> sort_column" where
  "asc column = \<lparr>s_column = column, s_direction = None\<rparr>"

definition demo_row :: "jsval \<Rightarrow> jsval \<Rightarrow> row" where
  "demo_row a b = [(''a'', a), (''b'', b)]"

text \<open>A cell that is a string without the separator \<open>|\<close>.\<close>

definition bar_free :: "jsval \<Rightarrow> bool" where
  "bar_free v \<longleftrightarrow> (case v of Str s \<Rightarrow> CHR ''|'' \<notin> set s | _ \<Rightarrow> False)"

text \<open>The number of rows counted so far in the group of a key (none when there is no group).\<close>

definition count_in :: "(string \<times> row_group) list \<Rightarrow> string \<Rightarrow> nat" where
  "count_in G k = (case Map_get G k of None \<Rightarrow> 0 | Some g \<Rightarrow> g_count g)"

section \<open>The streaming pipeline (\<open>StreamProcessor\<close>)\<close>

text \<open>The message a stage pushes downstream: a chunk of rows with its row range and headers.\<close>

record data_chunk =
  dc_type :: string
  dc_chunk :: "row list"
  dc_startRow :: int
  dc_endRow :: int
  dc_headers :: "jsval list"

text \<open>
  The processor's options as the constructor leaves them:
  \<open>{chunkSize: options.chunkSize || 100000, ..., ...options}\<close>. The spread comes last, so a
  \<open>chunkSize\<close> the caller gives is taken as it is, and the default applies only when the
  caller gives none.
\<close>

record stream_options =
  so_chunkSize :: int

definition new_StreamProcessor :: "int option \<Rightarrow> stream_options" where
  "new_StreamProcessor given =
     \<lparr>so_chunkSize = (case given of None \<Rightarrow> 100000 | Some c \<Rightarrow> c)\<rparr>"

text \<open>
  The sheet: the value of the cell at a row and a column, where there is one, and the used
  range.
\<close>

record sheet_range =
  s_r :: int
  s_c :: int
  e_r :: int
  e_c :: int

type_synonym worksheet = "int \<Rightarrow> int \<Rightarrow> jsval option"

definition read_headers :: "worksheet \<Rightarrow> sheet_range \<Rightarrow> jsval list" where
  "read_headers ws rg =
     map (\<lambda>col. case ws (s_r rg) col of
                    None \<Rightarrow> Str (''Column'' @ show_int (col + 1))
                  | Some v \<Rightarrow> v)
       [s_c rg..e_c rg]"

definition read_row :: "worksheet \<Rightarrow> sheet_range \<Rightarrow> jsval list \<Rightarrow> int \<Rightarrow> row" where
  "read_row ws rg headers r =
     foldl (\<lambda>rowData col.
              Map_set rowData (String_js (headers ! nat (col - s_c rg)))
                (case ws r col of None \<Rightarrow> Null | Some v \<Rightarrow> v))
       [] [s_c rg..e_c rg]"

text \<open>
  The loop of \<open>processExcelInChunks\<close>, with the chunks it pushes as its result. The
  loop ends only when \<open>currentRow\<close> passes \<open>endRow\<close>, which a \<open>chunkSize\<close> below 1
  never lets happen: the first argument bounds the number of iterations, and \<open>None\<close> is
  a loop still running when the bound is used up.
\<close>

fun read_loop :: "nat \<Rightarrow> int \<Rightarrow> worksheet \<Rightarrow> sheet_range \<Rightarrow> jsval list \<Rightarrow> int \<Rightarrow> int
    \<Rightarrow> data_chunk list option" where
  "read_loop 0 chunkSize ws rg headers currentRow endRow = None"
| "read_loop (Suc fuel) chunkSize ws rg headers currentRow endRow =
     (if currentRow \<le> endRow
      then (let chunkEndRow = min (currentRow + chunkSize - 1) endRow;
                chunk = map (read_row ws rg headers) [currentRow..chunkEndRow]
            in map_option
                 ((#) \<lparr>dc_type = ''data'', dc_chunk = chunk, dc_startRow = currentRow,
                        dc_endRow = chunkEndRow, dc_headers = headers\<rparr>)
                 (read_loop fuel chunkSize ws rg headers (chunkEndRow + 1) endRow))
      else Some [])"

definition processExcelInChunks :: "nat \<Rightarrow> stream_options \<Rightarrow> worksheet \<Rightarrow> sheet_range \<Rightarrow> int \<Rightarrow> int
    \<Rightarrow> data_chunk list option" where
  "processExcelInChunks fuel options ws rg startRow endRow =
     read_loop fuel (so_chunkSize options) ws rg (read_headers ws rg) startRow endRow"

text \<open>
  A \<open>Transform\<close> stream object. Its constructor takes \<open>transform\<close> and \<open>flush\<close> from the
  object it is given and installs them as the stream's methods; the stream has no
  \<open>options\<close> property, and inside \<open>flush\<close> the name \<open>this\<close> is the stream, not the
  \<open>StreamProcessor\<close> that built it.
\<close>

record transform_stream =
  ts_options :: "stream_options option"

definition new_Transform :: transform_stream where
  "new_Transform = \<lparr>ts_options = None\<rparr>"

text \<open>\<open>this.options?.chunkSize || 100000\<close>, evaluated in \<open>flush\<close>.\<close>

definition flush_chunkSize :: "transform_stream \<Rightarrow> int" where
  "flush_chunkSize this =
     (case ts_options this of
        None \<Rightarrow> 100000
      | Some opts \<Rightarrow> if so_chunkSize opts = 0 then 100000 else so_chunkSize opts)"

text \<open>
  The comparator of the sort stage; \<open>lt\<close> is JavaScript's \<open><\<close> on two cells (\<open>a > b\<close> is
  \<open>b < a\<close>).
\<close>

fun stream_compare :: "(jsval \<Rightarrow> jsval \<Rightarrow> bool) \<Rightarrow> sort_column list \<Rightarrow> row \<Rightarrow> row \<Rightarrow> int" where
  "stream_compare lt [] a b = 0"
| "stream_compare lt (k # ks) a b =
     (let aVal = cell a (s_column k); bVal = cell b (s_column k);
          comparison = (if lt aVal bVal then - 1 else if lt bVal aVal then 1 else 0)
      in if comparison \<noteq> 0
         then (if direction_of k = ''desc'' then - comparison else comparison)
         else stream_compare lt ks a b)"

text \<open>
  \<open>for (let i = 0; i < allData.length; i += chunkSize)\<close>, pushing
  \<open>allData.slice(i, i + chunkSize)\<close>.
\<close>

function rechunk :: "nat \<Rightarrow> nat \<Rightarrow> row list \<Rightarrow> jsval list \<Rightarrow> data_chunk list" where
  "rechunk chunkSize i allData headers =
     (if i < length allData \<and> 0 < chunkSize
      then \<lparr>dc_type = ''data'', dc_chunk = take chunkSize (drop i allData),
             dc_startRow = int i,
             dc_endRow = int i + int (length (take chunkSize (drop i allData))) - 1,
             dc_headers = headers\<rparr>
           # rechunk chunkSize (i + chunkSize) allData headers
      else [])"
  by pat_completeness auto
termination
  by (relation "measure (\<lambda>(chunkSize, i, allData, headers). length allData - i)") auto

declare rechunk.simps [simp del]

text \<open>
  The sort stage built by \<open>createSortStream\<close> of a processor with the given options, run on
  the messages it receives: \<open>transform\<close> buffers the data chunks, \<open>flush\<close> concatenates
  and sorts them and pushes the result in chunks. The processor's options are not read.
\<close>

definition createSortStream :: "stream_options \<Rightarrow> (jsval \<Rightarrow> jsval \<Rightarrow> bool) \<Rightarrow> sort_column list
    \<Rightarrow> data_chunk list \<Rightarrow> data_chunk list" where
  "createSortStream options lt sortColumns incoming =
     (let chunks = filter (\<lambda>c. dc_type c = ''data'') incoming;
          allData = js_sort (stream_compare lt sortColumns) (concat (map dc_chunk chunks));
          chunkSize = flush_chunkSize new_Transform
      in rechunk (nat chunkSize) 0 allData
           (case chunks of [] \<Rightarrow> [] | c # _ \<Rightarrow> dc_headers c))"

text \<open>Three one-cell rows arriving at the sort stage in chunks of two.\<close>

definition demo_chunks :: "data_chunk list" where
  "demo_chunks =
     [\<lparr>dc_type = ''data'', dc_chunk = [[(''a'', Num 3)], [(''a'', Num 1)]], dc_startRow = 1,
       dc_endRow = 2, dc_headers = [Str ''a'']\<rparr>,
      \<lparr>dc_type = ''data'', dc_chunk = [[(''a'', Num 2)]], dc_startRow = 3,
       dc_endRow = 3, dc_headers = [Str ''a'']\<rparr>]"

definition num_lt_cells :: "jsval \<Rightarrow> jsval \<Rightarrow> bool" where
  "num_lt_cells a b = (case (a, b) of (Num x, Num y) \<Rightarrow> x < y | _ \<Rightarrow> False)"

section \<open>Facts about \<open>Map\<close> and \<open>sort\<close>\<close>

lemma Map_delete_filter: "Map_delete m k = filter (\<lambda>e. fst e \<noteq> k) m"
  by (induction m) auto

lemma Map_get_map_of: "Map_get m k = map_of m k"
  by (induction m) auto

lemma Map_get_None_iff: "Map_get m k = None \<longleftrightarrow> k \<notin> fst ` set m"
  by (simp add: Map_get_map_of map_of_eq_None_iff)

lemma Map_get_Some_mem: "Map_get m k = Some v \<Longrightarrow> (k, v) \<in> set m"
  by (simp add: Map_get_map_of map_of_SomeD)

lemma Map_get_distinct: "distinct (map fst m) \<Longrightarrow> (k, v) \<in> set m \<Longrightarrow> Map_get m k = Some v"
  by (simp add: Map_get_map_of)

lemma set_insert_by: "set (insert_by cmp x ys) = insert x (set ys)"
  by (induction ys) auto

lemma set_js_sort: "set (js_sort cmp xs) = set xs"
  by (induction xs) (auto simp: set_insert_by)

lemma length_insert_by: "length (insert_by cmp x ys) = Suc (length ys)"
  by (induction ys) auto

lemma length_js_sort: "length (js_sort cmp xs) = length xs"
  by (induction xs) (auto simp: length_insert_by)

lemma distinct_insert_by: "distinct (map f (insert_by cmp x ys)) \<longleftrightarrow> distinct (map f (x # ys))"
  by (induction ys) (auto simp: set_insert_by)

lemma distinct_js_sort: "distinct (map f (js_sort cmp xs)) \<longleftrightarrow> distinct (map f xs)"
  by (induction xs) (auto simp: distinct_insert_by set_js_sort)

lemma mset_insert_by: "mset (insert_by cmp x ys) = add_mset x (mset ys)"
  by (induction ys) auto

lemma mset_js_sort: "mset (js_sort cmp xs) = mset xs"
  by (induction xs) (simp_all add: mset_insert_by)


section \<open>Eviction\<close>

lemma deleteCacheEntry_index:
  "cacheIndex (deleteCacheEntry k s) = filter (\<lambda>e. fst e \<noteq> k) (cacheIndex s)"
proof (cases "Map_get (cacheIndex s) k")
  case None
  then have "k \<notin> fst ` set (cacheIndex s)" by (simp add: Map_get_None_iff)
  then have "filter (\<lambda>e. fst e \<noteq> k) (cacheIndex s) = cacheIndex s"
    by (auto simp: filter_id_conv)
  with None show ?thesis by (simp add: deleteCacheEntry_def)
next
  case (Some info)
  then show ?thesis
    by (simp add: deleteCacheEntry_def Map_delete_filter Let_def split: option.splits)
qed

lemma deleteCacheEntry_max [simp]: "maxCacheSize (deleteCacheEntry k s) = maxCacheSize s"
  by (simp add: deleteCacheEntry_def Let_def split: option.splits)

lemma deleteCacheEntry_dir [simp]: "cacheDir (deleteCacheEntry k s) = cacheDir s"
  by (simp add: deleteCacheEntry_def Let_def split: option.splits)

lemma deleteCacheEntry_target [simp]: "targetSize (deleteCacheEntry k s) = targetSize s"
  by (simp add: targetSize_def)

lemma delete_entries_append:
  "delete_entries (ks @ ks') s = delete_entries ks' (delete_entries ks s)"
  by (induction ks arbitrary: s) auto

lemma delete_entries_index:
  "cacheIndex (delete_entries ks s) = filter (\<lambda>e. fst e \<notin> set ks) (cacheIndex s)"
  by (induction ks arbitrary: s) (auto simp: deleteCacheEntry_index intro: filter_cong)

lemma delete_entries_max [simp]: "maxCacheSize (delete_entries ks s) = maxCacheSize s"
  by (induction ks arbitrary: s) auto

lemma evict_loop_run:
  "\<exists>m \<le> length es.
      fst (fst (evict_loop es (c, d) s)) = c + m \<and>
      snd (evict_loop es (c, d) s) = delete_entries (map fst (take m es)) s \<and>
      (\<forall>i<m. targetSize s < of_int (currentCacheSize (delete_entries (map fst (take i es)) s))) \<and>
      (m < length es \<longrightarrow> of_int (currentCacheSize (snd (evict_loop es (c, d) s))) \<le> targetSize s)"
proof (induction es arbitrary: c d s)
  case Nil
  then show ?case by simp
next
  case (Cons e es)
  obtain k info where e: "e = (k, info)" by (cases e)
  show ?case
  proof (cases "of_int (currentCacheSize s) \<le> targetSize s")
    case True
    then show ?thesis by (intro exI[of _ 0]) (simp add: e)
  next
    case False
    from Cons.IH[of "c + 1" "d + ci_size info" "deleteCacheEntry k s"]
    obtain m where m: "m \<le> length es"
      "fst (fst (evict_loop es (c + 1, d + ci_size info) (deleteCacheEntry k s))) = c + 1 + m"
      "snd (evict_loop es (c + 1, d + ci_size info) (deleteCacheEntry k s))
         = delete_entries (map fst (take m es)) (deleteCacheEntry k s)"
      "\<forall>i<m. targetSize s < of_int (currentCacheSize
          (delete_entries (map fst (take i es)) (deleteCacheEntry k s)))"
      "m < length es \<longrightarrow> of_int (currentCacheSize
          (snd (evict_loop es (c + 1, d + ci_size info) (deleteCacheEntry k s)))) \<le> targetSize s"
      by auto
    have run: "\<forall>i<Suc m. targetSize s < of_int (currentCacheSize
          (delete_entries (map fst (take i (e # es))) s))"
    proof (intro allI impI)
      fix i assume "i < Suc m"
      show "targetSize s < of_int (currentCacheSize (delete_entries (map fst (take i (e # es))) s))"
      proof (cases i)
        case 0
        with False show ?thesis by simp
      next
        case (Suc j)
        with \<open>i < Suc m\<close> m(4) show ?thesis by (simp add: e)
      qed
    qed
    show ?thesis
      using False m(1,2,3,5) run
      by (intro exI[of _ "Suc m"]) (simp add: e)
  qed
qed


lemma priorityOrder_inj: "priorityOrder p = priorityOrder q \<longleftrightarrow> p = q"
  by (cases p; cases q) auto

lemma evict_cmp_le: "evict_cmp a b \<le> 0 \<longleftrightarrow> evict_le a b"
  using priorityOrder_inj[of "ci_priority (snd a)" "ci_priority (snd b)"]
  by (auto simp: evict_cmp_def evict_le_def)

lemma evict_le_total: "evict_le a b \<or> evict_le b a"
  using priorityOrder_inj[of "ci_priority (snd a)" "ci_priority (snd b)"]
  by (auto simp: evict_le_def)

lemma evict_le_trans: "evict_le a b \<Longrightarrow> evict_le b c \<Longrightarrow> evict_le a c"
  by (auto simp: evict_le_def)

lemma sorted_insert_by_evict:
  "sorted_wrt evict_le ys \<Longrightarrow> sorted_wrt evict_le (insert_by evict_cmp x ys)"
proof (induction ys)
  case Nil
  then show ?case by simp
next
  case (Cons y ys)
  show ?case
  proof (cases "evict_cmp x y \<le> 0")
    case True
    then have "evict_le x y" by (simp add: evict_cmp_le)
    with Cons.prems show ?thesis
      using True by (auto intro: evict_le_trans)
  next
    case False
    then have "evict_le y x" using evict_le_total[of x y] by (simp add: evict_cmp_le)
    with Cons False show ?thesis
      by (auto simp: set_insert_by)
  qed
qed

lemma sorted_js_sort_evict: "sorted_wrt evict_le (js_sort evict_cmp xs)"
  by (induction xs) (auto intro: sorted_insert_by_evict)


lemma cacheFilePath_inj: "cacheFilePath dir k = cacheFilePath dir k' \<longleftrightarrow> k = k'"
  by (simp add: cacheFilePath_def)

lemma total_size_filter:
  "distinct (map fst m) \<Longrightarrow> (k, v) \<in> set m \<Longrightarrow>
     total_size (filter (\<lambda>e. fst e \<noteq> k) m) = total_size m - ci_size v"
proof (induction m)
  case Nil
  then show ?case by simp
next
  case (Cons e m)
  show ?case
  proof (cases "fst e = k")
    case True
    with Cons.prems have "e = (k, v)" by (cases e) (auto simp: image_iff)
    moreover from True Cons.prems have "filter (\<lambda>e. fst e \<noteq> k) m = m"
      by (auto simp: filter_id_conv image_iff)
    ultimately show ?thesis by (simp add: total_size_def)
  next
    case False
    with Cons show ?thesis by (auto simp: total_size_def)
  qed
qed

lemma files_backed_deleteCacheEntry:
  assumes "files_backed s"
  shows "files_backed (deleteCacheEntry k s) \<and> drift (deleteCacheEntry k s) = drift s"
proof (cases "Map_get (cacheIndex s) k")
  case None
  then show ?thesis using assms by (simp add: deleteCacheEntry_def)
next
  case (Some info)
  from assms have d: "distinct (map fst (cacheIndex s))"
    and f: "\<forall>e\<in>set (cacheIndex s). ci_filePath (snd e) = cacheFilePath (cacheDir s) (fst e)
               \<and> files s (ci_filePath (snd e)) \<noteq> None"
    by (auto simp: files_backed_def list_all_iff)
  from Some have mem: "(k, info) \<in> set (cacheIndex s)" by (rule Map_get_Some_mem)
  with f have p: "ci_filePath info = cacheFilePath (cacheDir s) k"
    and ex: "files s (ci_filePath info) \<noteq> None" by auto
  from ex obtain raw where raw: "files s (ci_filePath info) = Some raw" by auto
  define I where "I = filter (\<lambda>e. fst e \<noteq> k) (cacheIndex s)"
  define F where "F = (files s)(ci_filePath info := None)"
  have st: "deleteCacheEntry k s =
      s\<lparr>files := F, currentCacheSize := currentCacheSize s - ci_size info, cacheIndex := I\<rparr>"
    using Some raw by (simp add: deleteCacheEntry_def Map_delete_filter I_def F_def)
  have 1: "distinct (map fst I)"
    using d by (simp add: distinct_map_filter I_def)
  have 2: "\<forall>e\<in>set I. ci_filePath (snd e) = cacheFilePath (cacheDir s) (fst e) \<and>
       F (ci_filePath (snd e)) \<noteq> None"
    using f p by (auto simp: cacheFilePath_inj I_def F_def)
  have 3: "total_size I = total_size (cacheIndex s) - ci_size info"
    using total_size_filter[OF d mem] by (simp add: I_def)
  from 1 2 have "files_backed (deleteCacheEntry k s)"
    unfolding st files_backed_def list_all_iff by auto
  moreover from 3 have "drift (deleteCacheEntry k s) = drift s"
    unfolding st drift_def by simp
  ultimately show ?thesis ..
qed

lemma files_backed_delete_entries:
  "files_backed s \<Longrightarrow> files_backed (delete_entries ks s) \<and> drift (delete_entries ks s) = drift s"
proof (induction ks arbitrary: s)
  case Nil
  then show ?case by simp
next
  case (Cons k ks)
  from files_backed_deleteCacheEntry[OF Cons.prems]
  have b: "files_backed (deleteCacheEntry k s)" and d: "drift (deleteCacheEntry k s) = drift s"
    by simp_all
  from Cons.IH[OF b] d show ?case by simp
qed

lemma round_half_even_error: "2 * \<bar>round_half_even p k * 2 ^ k - p\<bar> \<le> 2 ^ k"
proof -
  define q where "q = p div 2 ^ k"
  define r where "r = p mod 2 ^ k"
  have p: "p = q * 2 ^ k + r" using div_mult_mod_eq[of p "2 ^ k"] by (simp add: q_def r_def)
  have r: "0 \<le> r" "r < 2 ^ k" by (simp_all add: r_def)
  have "round_half_even p k = q \<and> 2 * r \<le> 2 ^ k \<or> round_half_even p k = q + 1 \<and> 2 ^ k \<le> 2 * r"
    by (auto simp: round_half_even_def Let_def q_def r_def)
  then show ?thesis
  proof
    assume a: "round_half_even p k = q \<and> 2 * r \<le> 2 ^ k"
    then have "round_half_even p k * 2 ^ k - p = - r" by (simp add: p)
    with a r show ?thesis by simp
  next
    assume a: "round_half_even p k = q + 1 \<and> 2 ^ k \<le> 2 * r"
    then have "round_half_even p k * 2 ^ k - p = 2 ^ k - r" by (simp add: p algebra_simps)
    with a r show ?thesis by simp
  qed
qed

lemma round_half_even_exact: "round_half_even p 0 = p"
  by (simp add: round_half_even_def)

lemma bit_length_bounds: "0 < n \<Longrightarrow> 2 ^ (bit_length n - 1) \<le> n \<and> n < 2 ^ bit_length n"
proof (induction n rule: bit_length.induct)
  case (1 n)
  show ?case
  proof (cases "n div 2 = 0")
    case True
    with 1 have "n = 1" by (simp add: div_eq_0_iff)
    then show ?thesis by (simp add: bit_length.simps)
  next
    case False
    with 1 have IH: "2 ^ (bit_length (n div 2) - 1) \<le> n div 2" "n div 2 < 2 ^ bit_length (n div 2)"
      by simp_all
    from False have pos: "0 < bit_length (n div 2)" by (simp add: bit_length.simps[of "n div 2"])
    have b: "bit_length n = Suc (bit_length (n div 2))"
      using 1(2) by (simp add: bit_length.simps[of n])
    have "2 ^ (bit_length n - 1) = 2 * 2 ^ (bit_length (n div 2) - 1)"
      using pos b by (cases "bit_length (n div 2)") simp_all
    also have "\<dots> \<le> 2 * (n div 2)" using IH(1) by simp
    also have "\<dots> \<le> n" by simp
    finally have lo: "2 ^ (bit_length n - 1) \<le> n" .
    have "n < 2 * (n div 2) + 2" by presburger
    also have "\<dots> \<le> 2 * 2 ^ bit_length (n div 2)" using IH(2) by simp
    finally have "n < 2 ^ bit_length n" by (simp add: b)
    with lo show ?thesis ..
  qed
qed

lemma nat_times_0_7_error:
  "\<exists>e::int. nat_times_0_7 n = of_int (int n * significand_0_7 + e) / 2 ^ 53 \<and>
      \<bar>e\<bar> * 2 ^ 53 \<le> int n * significand_0_7"
proof -
  define p where "p = int n * significand_0_7"
  define k where "k = bit_length (nat p) - 53"
  define e where "e = round_half_even p k * 2 ^ k - p"
  have p0: "0 \<le> p" by (simp add: p_def significand_0_7_def)
  have fl: "nat_times_0_7 n = of_int (p + e) / 2 ^ 53"
    by (simp add: nat_times_0_7_def Let_def p_def[symmetric] k_def[symmetric] e_def)
  have "\<bar>e\<bar> * 2 ^ 53 \<le> p"
  proof (cases "bit_length (nat p) \<le> 53")
    case True
    then have "k = 0" by (simp add: k_def)
    then have "e = 0" by (simp add: e_def round_half_even_exact)
    with p0 show ?thesis by simp
  next
    case False
    then have b: "bit_length (nat p) - 1 = k + 52" by (simp add: k_def)
    from False have "0 < nat p" by (cases "nat p = 0") (simp_all add: bit_length.simps)
    from bit_length_bounds[OF this] b have "2 ^ (k + 52) \<le> nat p" by simp
    then have "int (2 ^ (k + 52)) \<le> int (nat p)" by (simp only: of_nat_le_iff)
    with p0 have lo: "(2::int) ^ k * 2 ^ 52 \<le> p" by (simp add: power_add)
    from round_half_even_error[of p k] have "2 * \<bar>e\<bar> \<le> 2 ^ k" by (simp add: e_def)
    then have "2 * \<bar>e\<bar> * 2 ^ 52 \<le> 2 ^ k * 2 ^ 52" by (rule mult_right_mono) simp
    with lo show ?thesis by simp
  qed
  with fl show ?thesis unfolding p_def by blast
qed

lemma nat_times_0_7_close:
  "\<bar>nat_times_0_7 n - of_nat n * (7 / 10)\<bar> \<le> of_nat n / 2 ^ 52"
proof -
  from nat_times_0_7_error[of n] obtain e :: int where
    fl: "nat_times_0_7 n = of_int (int n * significand_0_7 + e) / 2 ^ 53"
    and e: "\<bar>e\<bar> * 2 ^ 53 \<le> int n * significand_0_7" by blast
  have "int n * significand_0_7 \<le> int n * 2 ^ 53"
    by (rule mult_left_mono) (simp_all add: significand_0_7_def)
  with e have "\<bar>e\<bar> * 2 ^ 53 \<le> int n * 2 ^ 53" by (rule order_trans)
  then have e': "\<bar>e\<bar> \<le> int n" by simp
  then have e'': "\<bar>(of_int e :: rat)\<bar> \<le> of_nat n"
    by (metis of_int_abs of_int_le_iff of_int_of_nat_eq)
  have "nat_times_0_7 n - of_nat n * (7 / 10) = (of_int e - of_nat n * (2 / 5)) / 2 ^ 53"
    by (simp add: fl significand_0_7_def field_simps)
  also have "\<bar>\<dots>\<bar> = \<bar>of_int e - of_nat n * (2 / 5)\<bar> / 2 ^ 53" by simp
  also have "\<dots> \<le> (of_nat n * 2) / 2 ^ 53"
  proof (rule divide_right_mono)
    have "\<bar>of_int e - of_nat n * (2 / 5 :: rat)\<bar> \<le> \<bar>of_int e\<bar> + \<bar>of_nat n * (2 / 5 :: rat)\<bar>"
      by (rule abs_triangle_ineq4)
    also have "\<dots> \<le> of_nat n + of_nat n * (2 / 5)" using e'' by simp
    also have "\<dots> \<le> of_nat n * 2" by simp
    finally show "\<bar>of_int e - of_nat n * (2 / 5 :: rat)\<bar> \<le> of_nat n * 2" .
  qed simp
  also have "\<dots> = of_nat n / 2 ^ 52" by simp
  finally show ?thesis .
qed

lemma times_0_7_close: "\<bar>times_0_7 m - of_int m * (7 / 10)\<bar> \<le> \<bar>of_int m\<bar> / 2 ^ 52"
proof (cases "m < 0")
  case True
  from nat_times_0_7_close[of "nat (- m)"] True show ?thesis
    by (simp add: times_0_7_def abs_minus_commute)
next
  case False
  from nat_times_0_7_close[of "nat m"] False show ?thesis
    by (simp add: times_0_7_def)
qed

lemma times_0_7_le: "0 \<le> m \<Longrightarrow> times_0_7 m \<le> of_int m"
proof -
  assume m: "0 \<le> m"
  define x :: rat where "x = of_int m"
  have x: "0 \<le> x" using m by (simp add: x_def)
  from times_0_7_close[of m] have "\<bar>times_0_7 m - x * (7 / 10)\<bar> \<le> \<bar>x\<bar> / 2 ^ 52"
    by (simp only: x_def)
  with x have "times_0_7 m - x * (7 / 10) \<le> x / 2 ^ 52" by (simp only: abs_le_iff abs_of_nonneg)
  then have "times_0_7 m \<le> x * (7 / 10 + 1 / 2 ^ 52)" by (simp add: algebra_simps)
  also have "\<dots> \<le> x * 1" by (rule mult_left_mono[OF _ x]) simp
  finally show ?thesis by (simp add: x_def)
qed

lemma nat_times_0_7_100: "nat_times_0_7 100 = 70"
proof -
  have b: "bit_length (nat (int 100 * significand_0_7)) - 53 = 7"
    by (simp add: significand_0_7_def bit_length.simps)
  show ?thesis
    unfolding nat_times_0_7_def Let_def b
    by (simp add: significand_0_7_def round_half_even_def)
qed

lemma nat_times_0_7_90: "nat_times_0_7 90 = 8866461766385663 / 140737488355328"
proof -
  have b: "bit_length (nat (int 90 * significand_0_7)) - 53 = 6"
    by (simp add: significand_0_7_def bit_length.simps)
  show ?thesis
    unfolding nat_times_0_7_def Let_def b
    by (simp add: significand_0_7_def round_half_even_def)
qed

lemma nat_times_0_7_5: "nat_times_0_7 5 = 7 / 2"
proof -
  have b: "bit_length (nat (int 5 * significand_0_7)) - 53 = 2"
    by (simp add: significand_0_7_def bit_length.simps)
  show ?thesis
    unfolding nat_times_0_7_def Let_def b
    by (simp add: significand_0_7_def round_half_even_def)
qed

lemma target_le_max: "0 \<le> maxCacheSize s \<Longrightarrow> of_int c \<le> targetSize s \<Longrightarrow> c \<le> maxCacheSize s"
proof -
  assume m: "0 \<le> maxCacheSize s" and c: "of_int c \<le> targetSize s"
  have "targetSize s \<le> of_int (maxCacheSize s)"
    using m by (simp add: targetSize_def times_0_7_le)
  with c have "(of_int c :: rat) \<le> of_int (maxCacheSize s)" by (rule order_trans)
  then show ?thesis by simp
qed

lemma retained_set:
  assumes "distinct (map fst xs)"
  shows "set (filter (\<lambda>e. fst e \<notin> set (map fst (take n xs))) xs) = set (drop n xs)"
proof -
  have xs: "xs = take n xs @ drop n xs" by simp
  from assms have "distinct (map fst (take n xs @ drop n xs))" by simp
  then have dis: "fst ` set (take n xs) \<inter> fst ` set (drop n xs) = {}"
    by (simp only: map_append distinct_append set_map) 
  have "set xs = set (take n xs) \<union> set (drop n xs)"
    by (metis xs set_append)
  with dis show ?thesis by auto
qed


text \<open>
  Claim C3, as amended. On an index with one entry per key, \<open>evictOldCache\<close> deletes
  exactly the first \<open>n\<close> entries of the index sorted by (priority ascending, timestamp
  ascending), where \<open>n\<close> is the \<open>deletedCount\<close> it returns: the running total
  \<open>currentCacheSize\<close> is above the double product \<open>maxCacheSize * 0.7\<close> before each
  deletion, and the loop stops with entries left only when the total is at or below that
  product, which differs from 70 percent of the ceiling by at most the ceiling divided by
  \<open>2^52\<close>. Every deleted entry precedes every retained one in that order, so no entry is
  deleted while one of strictly lower priority, or of equal priority and earlier timestamp,
  is retained. When the indexed files are on disk, the ceiling is not negative and the
  running total exceeds the sum of the indexed sizes by no more than the ceiling (by
  nothing, in an exact account), the total after eviction is at most the ceiling; the
  eviction keeps the files in place and the excess unchanged.
\<close>

theorem C3_eviction_order_and_bound:
  assumes "distinct (map fst (cacheIndex s))"
  shows "(let order = js_sort evict_cmp (cacheIndex s);
              n = fst (fst (evictOldCache s));
              s' = snd (evictOldCache s)
          in n \<le> length order \<and>
             sorted_wrt evict_le order \<and>
             s' = delete_entries (map fst (take n order)) s \<and>
             set (cacheIndex s') = set (drop n order) \<and>
             (\<forall>i<n. targetSize s
                  < of_int (currentCacheSize (delete_entries (map fst (take i order)) s))) \<and>
             (n < length order \<longrightarrow> of_int (currentCacheSize s') \<le> targetSize s) \<and>
             \<bar>targetSize s - of_int (maxCacheSize s) * (7 / 10)\<bar>
               \<le> \<bar>of_int (maxCacheSize s)\<bar> / 2 ^ 52 \<and>
             (\<forall>d\<in>set (take n order). \<forall>r\<in>set (cacheIndex s'). evict_le d r) \<and>
             (files_backed s \<and> 0 \<le> maxCacheSize s \<and> drift s \<le> maxCacheSize s \<longrightarrow>
                files_backed s' \<and> drift s' = drift s \<and> currentCacheSize s' \<le> maxCacheSize s))"
proof -
  define order where "order = js_sort evict_cmp (cacheIndex s)"
  define n where "n = fst (fst (evictOldCache s))"
  define s' where "s' = snd (evictOldCache s)"
  from evict_loop_run[of order 0 0 s]
  obtain m where m: "m \<le> length order"
    "fst (fst (evict_loop order (0, 0) s)) = 0 + m"
    "snd (evict_loop order (0, 0) s) = delete_entries (map fst (take m order)) s"
    "\<forall>i<m. targetSize s < of_int (currentCacheSize (delete_entries (map fst (take i order)) s))"
    "m < length order \<longrightarrow> of_int (currentCacheSize (snd (evict_loop order (0, 0) s))) \<le> targetSize s"
    by blast
  have nm: "n = m" using m(2) by (simp add: n_def evictOldCache_def order_def)
  have s'_eq: "s' = delete_entries (map fst (take n order)) s"
    using m(3) nm by (simp add: s'_def evictOldCache_def order_def)
  have srt: "sorted_wrt evict_le order"
    by (simp add: order_def sorted_js_sort_evict)
  have dorder: "distinct (map fst order)"
    using assms by (simp add: order_def distinct_js_sort)
  have idx: "cacheIndex s' = filter (\<lambda>e. fst e \<notin> set (map fst (take n order))) (cacheIndex s)"
    by (simp add: s'_eq delete_entries_index)
  have "set (cacheIndex s') = {e \<in> set order. fst e \<notin> set (map fst (take n order))}"
    by (simp add: idx order_def set_js_sort)
  also have "\<dots> = set (filter (\<lambda>e. fst e \<notin> set (map fst (take n order))) order)"
    by simp
  also have "\<dots> = set (drop n order)"
    using dorder by (rule retained_set)
  finally have ret: "set (cacheIndex s') = set (drop n order)" .
  have "sorted_wrt evict_le (take n order @ drop n order)" using srt by simp
  then have ord: "\<forall>d\<in>set (take n order). \<forall>r\<in>set (cacheIndex s'). evict_le d r"
    unfolding sorted_wrt_append ret by blast
  have stop: "n < length order \<longrightarrow> of_int (currentCacheSize s') \<le> targetSize s"
    using m(5) nm by (simp add: s'_def evictOldCache_def order_def)
  have bound: "files_backed s' \<and> drift s' = drift s \<and> currentCacheSize s' \<le> maxCacheSize s"
    if c: "files_backed s" and mx: "0 \<le> maxCacheSize s" and dr: "drift s \<le> maxCacheSize s"
  proof (intro conjI)
    from files_backed_delete_entries[OF c, of "map fst (take n order)"]
    show c': "files_backed s'" and d': "drift s' = drift s" by (simp_all add: s'_eq)
    show "currentCacheSize s' \<le> maxCacheSize s"
    proof (cases "n < length order")
      case True
      with stop have "of_int (currentCacheSize s') \<le> targetSize s" by simp
      with mx show ?thesis by (rule target_le_max)
    next
      case False
      with m(1) nm have "drop n order = []" by simp
      with ret have "cacheIndex s' = []" by simp
      then have "currentCacheSize s' = drift s'" by (simp add: drift_def total_size_def)
      with d' dr show ?thesis by simp
    qed
  qed
  have close: "\<bar>targetSize s - of_int (maxCacheSize s) * (7 / 10)\<bar>
      \<le> \<bar>of_int (maxCacheSize s)\<bar> / 2 ^ 52"
    unfolding targetSize_def by (rule times_0_7_close)
  show ?thesis
    unfolding Let_def order_def[symmetric] n_def[symmetric] s'_def[symmetric]
    using m(1) m(4) nm srt s'_eq ret stop ord bound close by blast
qed

lemma times_0_7_values:
  "times_0_7 100 = 70" "times_0_7 90 = 8866461766385663 / 140737488355328" "times_0_7 5 = 7 / 2"
  using nat_times_0_7_100 nat_times_0_7_90 nat_times_0_7_5 by (simp_all add: times_0_7_def)

lemma targetSize_demo: "targetSize demo_full_cache = 70"
  by (simp add: targetSize_def demo_full_cache_def times_0_7_values)

lemma demo_order: "js_sort evict_cmp (cacheIndex demo_full_cache)
   = [demo_info ''b'' Low 9 30, demo_info ''a'' Normal 5 40, demo_info ''k'' High 1 50]"
  by (simp add: demo_full_cache_def demo_info_def evict_cmp_def)

lemma demo_evict: "fst (evictOldCache demo_full_cache) = (2, 70)
    \<and> cacheIndex (snd (evictOldCache demo_full_cache)) = [demo_info ''k'' High 1 50]
    \<and> currentCacheSize (snd (evictOldCache demo_full_cache)) = 50"
  by (simp add: evictOldCache_def demo_full_cache_def demo_info_def evict_cmp_def
      deleteCacheEntry_def targetSize_def times_0_7_values cacheFilePath_def)

lemma demo_backed: "files_backed demo_full_cache \<and> drift demo_full_cache = 0"
  by (simp add: files_backed_def drift_def demo_full_cache_def demo_info_def total_size_def
      cacheFilePath_def)

text \<open>
  The amended claim at a concrete run: with 120 bytes under a ceiling of 100, whose product
  with \<open>0.7\<close> is the double 70, the low-priority entry and then the normal-priority entry
  are deleted, which leaves 50 bytes.
\<close>

theorem C3_witness:
  "distinct (map fst (cacheIndex demo_full_cache)) \<and> files_backed demo_full_cache
   \<and> 0 \<le> maxCacheSize demo_full_cache
   \<and> drift demo_full_cache \<le> maxCacheSize demo_full_cache
   \<and> maxCacheSize demo_full_cache < currentCacheSize demo_full_cache
   \<and> targetSize demo_full_cache = 70
   \<and> fst (fst (evictOldCache demo_full_cache)) = 2
   \<and> (2::nat) < length (js_sort evict_cmp (cacheIndex demo_full_cache))
   \<and> map fst (take 2 (js_sort evict_cmp (cacheIndex demo_full_cache))) = [''b'', ''a'']
   \<and> map fst (cacheIndex (snd (evictOldCache demo_full_cache))) = [''k'']
   \<and> currentCacheSize (snd (evictOldCache demo_full_cache)) \<le> maxCacheSize demo_full_cache"
proof -
  have d: "distinct (map fst (cacheIndex demo_full_cache))"
    by (simp add: demo_full_cache_def demo_info_def)
  have m: "maxCacheSize demo_full_cache = 100" "currentCacheSize demo_full_cache = 120"
    by (simp_all add: demo_full_cache_def)
  from C3_eviction_order_and_bound[OF d, unfolded Let_def]
  have "files_backed demo_full_cache \<and> 0 \<le> maxCacheSize demo_full_cache \<and>
        drift demo_full_cache \<le> maxCacheSize demo_full_cache \<longrightarrow>
          files_backed (snd (evictOldCache demo_full_cache)) \<and>
          drift (snd (evictOldCache demo_full_cache)) = drift demo_full_cache \<and>
          currentCacheSize (snd (evictOldCache demo_full_cache)) \<le> maxCacheSize demo_full_cache"
    by blast
  with demo_backed m
  have "currentCacheSize (snd (evictOldCache demo_full_cache)) \<le> maxCacheSize demo_full_cache"
    by simp
  with d demo_backed m demo_evict demo_order targetSize_demo show ?thesis
    by (simp add: demo_info_def)
qed

lemma ghost_order: "js_sort evict_cmp (cacheIndex ghost_cache)
   = [demo_info ''b'' Low 9 30, demo_info ''a'' Normal 5 40, demo_info ''k'' High 1 50]"
  by (simp add: ghost_cache_def demo_full_cache_def demo_info_def evict_cmp_def)

lemma ghost_evict: "fst (evictOldCache ghost_cache) = (3, 120)
    \<and> cacheIndex (snd (evictOldCache ghost_cache)) = []
    \<and> currentCacheSize (snd (evictOldCache ghost_cache)) = 120"
  by (simp add: evictOldCache_def ghost_cache_def demo_full_cache_def demo_info_def evict_cmp_def
      deleteCacheEntry_def targetSize_def times_0_7_values cacheFilePath_def)

lemma boundary_order: "js_sort evict_cmp (cacheIndex boundary_cache)
   = [demo_info ''a'' Low 1 30, demo_info ''b'' Normal 2 3, demo_info ''k'' High 3 60]"
  by (simp add: boundary_cache_def demo_info_def evict_cmp_def)

lemma boundary_first_deletion:
  "currentCacheSize (deleteCacheEntry ''a'' boundary_cache) = 63"
  by (simp add: boundary_cache_def demo_info_def deleteCacheEntry_def cacheFilePath_def)

lemma boundary_evict: "fst (evictOldCache boundary_cache) = (2, 33)
    \<and> map fst (cacheIndex (snd (evictOldCache boundary_cache))) = [''k'']
    \<and> currentCacheSize (snd (evictOldCache boundary_cache)) = 60"
  by (simp add: evictOldCache_def boundary_cache_def demo_info_def evict_cmp_def
      deleteCacheEntry_def targetSize_def times_0_7_values cacheFilePath_def)

text \<open>
  Claim C3 as stated fails in two ways. With 120 indexed bytes under a ceiling of 100 and
  the indexed files no longer on disk, eviction deletes every entry (it does not stop when
  the indexed sizes are down to 70 bytes or less) and the running total is still 120, above
  the ceiling: a deletion whose file is missing takes nothing off the total. With 93 bytes
  under a ceiling of 90, the first deletion brings the total to 63, which is 70 percent of
  the ceiling; the product \<open>90 * 0.7\<close> is a double just below 63, and a second entry is
  deleted.
\<close>

theorem C3_counterexample:
  "total_size (cacheIndex ghost_cache) = 120 \<and> currentCacheSize ghost_cache = 120 \<and>
   maxCacheSize ghost_cache = 100 \<and>
   fst (fst (evictOldCache ghost_cache)) = 3 \<and>
   cacheIndex (snd (evictOldCache ghost_cache)) = [] \<and>
   maxCacheSize ghost_cache < currentCacheSize (snd (evictOldCache ghost_cache)) \<and>
   maxCacheSize boundary_cache < currentCacheSize boundary_cache \<and>
   (of_int (currentCacheSize (deleteCacheEntry ''a'' boundary_cache)) :: rat)
     = of_int (maxCacheSize boundary_cache) * (7 / 10) \<and>
   fst (fst (evictOldCache boundary_cache)) = 2"
proof -
  have 1: "total_size (cacheIndex ghost_cache) = 120" "currentCacheSize ghost_cache = 120"
    "maxCacheSize ghost_cache = 100"
    by (simp_all add: ghost_cache_def demo_full_cache_def demo_info_def total_size_def)
  have 2: "maxCacheSize boundary_cache = 90" "currentCacheSize boundary_cache = 93"
    by (simp_all add: boundary_cache_def)
  from 1 2 ghost_evict boundary_evict boundary_first_deletion show ?thesis by simp
qed

section \<open>Reading back what was written\<close>

lemma Map_get_Map_set_same: "Map_get (Map_set m k v) k = Some v"
  by (induction m) auto

lemma Map_get_filter_keys:
  "Map_get (filter (\<lambda>e. fst e \<notin> K) m) k = (if k \<in> K then None else Map_get m k)"
  by (induction m) auto

lemma deleteCacheEntry_files: "files (deleteCacheEntry k s) p = files s p \<or> files (deleteCacheEntry k s) p = None"
  by (simp add: deleteCacheEntry_def Let_def split: option.splits)

lemma delete_entries_files: "files (delete_entries ks s) p = files s p \<or> files (delete_entries ks s) p = None"
proof (induction ks arbitrary: s)
  case Nil
  then show ?case by simp
next
  case (Cons k ks)
  from Cons.IH[of "deleteCacheEntry k s"] deleteCacheEntry_files[of k s p]
  show ?case by auto
qed

lemma evictOldCache_deletes: "\<exists>ks. snd (evictOldCache s) = delete_entries ks s"
  using evict_loop_run[of "js_sort evict_cmp (cacheIndex s)" 0 0 s]
  by (auto simp: evictOldCache_def)


lemma set_entries_in_index: "set (Map_set m k v) \<subseteq> insert (k, v) (set m)"
  by (induction m) (auto split: if_splits)

lemma own_paths_deleteCacheEntry: "own_paths s \<Longrightarrow> own_paths (deleteCacheEntry k s)"
  by (auto simp: own_paths_def list_all_iff deleteCacheEntry_index)

lemma deleteCacheEntry_files_other:
  assumes "own_paths s" and "k \<noteq> k'"
  shows "files (deleteCacheEntry k s) (cacheFilePath (cacheDir s) k')
           = files s (cacheFilePath (cacheDir s) k')"
proof (cases "Map_get (cacheIndex s) k")
  case None
  then show ?thesis by (simp add: deleteCacheEntry_def)
next
  case (Some info)
  then have "(k, info) \<in> set (cacheIndex s)" by (rule Map_get_Some_mem)
  with assms(1) have "ci_filePath info = cacheFilePath (cacheDir s) k"
    by (auto simp: own_paths_def list_all_iff)
  with assms(2) have "ci_filePath info \<noteq> cacheFilePath (cacheDir s) k'"
    by (simp add: cacheFilePath_inj)
  with Some show ?thesis
    by (simp add: deleteCacheEntry_def Let_def split: option.splits)
qed

lemma delete_entries_files_other:
  "own_paths s \<Longrightarrow> k' \<notin> set ks \<Longrightarrow>
     files (delete_entries ks s) (cacheFilePath (cacheDir s) k')
       = files s (cacheFilePath (cacheDir s) k')"
proof (induction ks arbitrary: s)
  case Nil
  then show ?case by simp
next
  case (Cons k ks)
  from Cons.prems have ne: "k \<noteq> k'" and rest: "k' \<notin> set ks" by auto
  from Cons.IH[OF own_paths_deleteCacheEntry[OF Cons.prems(1)] rest]
       deleteCacheEntry_files_other[OF Cons.prems(1) ne]
  show ?case by simp
qed

lemma get_after_set:
  fixes R :: "('b, 'v) runtime" and s :: "'b cache_state" and k :: jsval and now' :: int
  assumes gz: "compress_of opts \<longrightarrow>
            gunzip R (gzip R (stringify R (new_cacheEntry now k v opts)))
              = Some (stringify R (new_cacheEntry now k v opts))"
    and js: "parse R (stringify R (new_cacheEntry now k v opts)) = Some e'"
    and val: "ce_value e' = v"
    and ttl: "now' - now \<le> ttl_of opts"
  defines "s4 \<equiv> snd (setCacheData R now k v opts s)"
    and "r \<equiv> fst (getCacheData R now' k (snd (setCacheData R now k v opts s)))"
    and "ck \<equiv> generateCacheKey R k"
  shows "((\<exists>h. r = Result_found h \<and> hit_data h = v) \<or> (\<exists>m. r = Result_miss m))"
    and "(\<exists>m. r = Result_miss m) \<Longrightarrow>
           maxCacheSize s
             < currentCacheSize s + byte_length R (serializedData R (new_cacheEntry now k v opts))"
    and "own_paths s \<Longrightarrow> ck \<in> fst ` set (cacheIndex s4) \<Longrightarrow>
           \<exists>h. r = Result_found h \<and> hit_data h = v"
    and "ck \<notin> fst ` set (cacheIndex s4) \<Longrightarrow> r = Result_miss ''Cache miss''"
proof -
  define e where "e = new_cacheEntry now k v opts"
  define path where "path = cacheFilePath (cacheDir s) ck"
  define info where "info = \<lparr>ci_key = k, ci_timestamp = now, ci_ttl = ttl_of opts,
      ci_size = byte_length R (serializedData R e), ci_compressed = compress_of opts,
      ci_priority = priority_of opts, ci_filePath = path\<rparr>"
  define s3 where "s3 = s\<lparr>files := (files s)(path \<mapsto> serializedData R e),
      cacheIndex := Map_set (cacheIndex s) ck info,
      currentCacheSize := currentCacheSize s + byte_length R (serializedData R e)\<rparr>"
  have s4: "s4 = (if maxCacheSize s < currentCacheSize s + byte_length R (serializedData R e)
                  then snd (evictOldCache s3) else s3)"
    by (simp add: s4_def setCacheData_def Let_def s3_def info_def path_def ck_def e_def)
  then have "s4 = s3 \<or> s4 = snd (evictOldCache s3)" by simp
  then obtain ks where ks: "s4 = delete_entries ks s3"
    using evictOldCache_deletes[of s3] delete_entries.simps(1)[of s3] by metis
  have r: "r = fst (getCacheData R now' k s4)" by (simp add: r_def s4_def)
  have g3: "Map_get (cacheIndex s3) ck = Some info"
    by (simp add: s3_def Map_get_Map_set_same)
  have idx: "cacheIndex s4 = filter (\<lambda>e. fst e \<notin> set ks) (cacheIndex s3)"
    by (simp add: ks delete_entries_index)
  have g: "Map_get (cacheIndex s4) ck = (if ck \<in> set ks then None else Some info)"
    using g3 by (simp add: idx Map_get_filter_keys)
  have f3: "files s3 path = Some (serializedData R e)" by (simp add: s3_def)
  have f: "files s4 path = None \<or> files s4 path = Some (serializedData R e)"
    using delete_entries_files[of ks s3 path] f3 by (auto simp: ks)
  have ec: "ce_compressed e = compress_of opts" by (simp add: e_def new_cacheEntry_def)
  have dec: "(if ci_compressed info then gunzip R (serializedData R e) else Some (serializedData R e))
      = Some (stringify R e)"
    using gz by (simp add: info_def serializedData_def ec e_def[symmetric])
  have p: "ci_filePath info = path" by (simp add: info_def)
  have fresh: "\<not> now' - ci_timestamp info > ci_ttl info" using ttl by (simp add: info_def)
  have found: "\<exists>h. r = Result_found h \<and> hit_data h = v"
    if "Map_get (cacheIndex s4) ck = Some info" and "files s4 path = Some (serializedData R e)"
    unfolding r using that fresh p dec js[folded e_def] val
    by (simp add: getCacheData_def ck_def[symmetric])
  have miss_idx: "r = Result_miss ''Cache miss''" if "Map_get (cacheIndex s4) ck = None"
    unfolding r using that by (simp add: getCacheData_def ck_def[symmetric])
  have miss_file: "\<exists>m. r = Result_miss m"
    if "Map_get (cacheIndex s4) ck = Some info" and "files s4 path = None"
    unfolding r using that fresh p by (simp add: getCacheData_def ck_def[symmetric])
  show 1: "(\<exists>h. r = Result_found h \<and> hit_data h = v) \<or> (\<exists>m. r = Result_miss m)"
    using g f found miss_idx miss_file by (cases "ck \<in> set ks") auto
  show "maxCacheSize s
          < currentCacheSize s + byte_length R (serializedData R (new_cacheEntry now k v opts))"
    if m: "\<exists>m. r = Result_miss m"
  proof (rule ccontr)
    assume "\<not> ?thesis"
    then have "s4 = s3" by (simp add: s4 e_def)
    with g3 f3 have "\<exists>h. r = Result_found h \<and> hit_data h = v" by (intro found) simp_all
    with m show False by auto
  qed
  show "\<exists>h. r = Result_found h \<and> hit_data h = v"
    if own: "own_paths s" and mem: "ck \<in> fst ` set (cacheIndex s4)"
  proof -
    from mem have nk: "ck \<notin> set ks" by (auto simp: idx)
    have "own_paths s3"
      using own set_entries_in_index[of "cacheIndex s" ck info]
      by (auto simp: own_paths_def list_all_iff s3_def info_def path_def)
    from delete_entries_files_other[OF this nk]
    have "files s4 path = files s3 path" by (simp add: ks path_def s3_def)
    with f3 g nk show ?thesis by (intro found) simp_all
  qed
  show "r = Result_miss ''Cache miss''" if "ck \<notin> fst ` set (cacheIndex s4)"
    using that by (intro miss_idx) (simp add: Map_get_None_iff)
qed

text \<open>
  Claim C1, as amended. When the runtime's gzip round-trips the serialised entry, the value
  comes back unchanged from the runtime's JSON, and the read happens no later than \<open>ttl\<close>
  after the write, a \<open>getCacheData\<close> of the same key right after \<open>setCacheData\<close>
  either finds the entry and returns the value unchanged, with and without compression, or
  reports a miss. It reports a miss only when the write put the running total above the
  ceiling, so that \<open>setCacheData\<close> itself ran the eviction. On an index whose entries name
  their own files, the value is found exactly when the key is still indexed after the write,
  and the miss is the one of a key that the eviction removed from the index.
\<close>

theorem C1_set_then_get_unless_evicted:
  fixes R :: "('b, 'v) runtime"
  assumes "compress_of opts \<longrightarrow>
            gunzip R (gzip R (stringify R (new_cacheEntry now k v opts)))
              = Some (stringify R (new_cacheEntry now k v opts))"
    and "parse R (stringify R (new_cacheEntry now k v opts)) = Some e'"
    and "ce_value e' = v"
    and "now' - now \<le> ttl_of opts"
  shows
   "((\<exists>h. fst (getCacheData R now' k (snd (setCacheData R now k v opts s))) = Result_found h
          \<and> hit_data h = v) \<or>
     (\<exists>m. fst (getCacheData R now' k (snd (setCacheData R now k v opts s))) = Result_miss m)) \<and>
    ((\<exists>m. fst (getCacheData R now' k (snd (setCacheData R now k v opts s))) = Result_miss m) \<longrightarrow>
       maxCacheSize s
         < currentCacheSize s + byte_length R (serializedData R (new_cacheEntry now k v opts))) \<and>
    (own_paths s \<longrightarrow>
       (if generateCacheKey R k \<in> fst ` set (cacheIndex (snd (setCacheData R now k v opts s)))
        then \<exists>h. fst (getCacheData R now' k (snd (setCacheData R now k v opts s))) = Result_found h
                 \<and> hit_data h = v
        else fst (getCacheData R now' k (snd (setCacheData R now k v opts s)))
               = Result_miss ''Cache miss''))"
  using get_after_set[OF assms, of s] by auto

lemma demo_roundtrip:
  "gunzip demo_runtime (gzip demo_runtime (stringify demo_runtime e)) = Some (stringify demo_runtime e)"
  "parse demo_runtime (stringify demo_runtime e) = Some e"
  by (simp_all add: demo_runtime_def)

lemmas cache_eval =
  demo_runtime_def ttl_of_def no_options_def setCacheData_def getCacheData_def
  empty_cache_def evictOldCache_def deleteCacheEntry_def generateCacheKey_def Let_def
  targetSize_def times_0_7_values new_cacheEntry_def serializedData_def compress_of_def
  priority_of_def cacheFilePath_def evict_cmp_def demo_info_def one_low_cache_def

lemma one_low_cache_run:
  "map fst (cacheIndex (snd (setCacheData demo_runtime 0 (Str ''k'') (Str ''v'')
       (no_options\<lparr>opt_priority := Some High\<rparr>) one_low_cache))) = [''k'']"
  "maxCacheSize one_low_cache
     < currentCacheSize one_low_cache
       + byte_length demo_runtime (serializedData demo_runtime
           (new_cacheEntry 0 (Str ''k'') (Str ''v'') (no_options\<lparr>opt_priority := Some High\<rparr>)))"
  "own_paths one_low_cache"
  by (simp_all add: cache_eval own_paths_def)

text \<open>
  The amended claim at concrete runs: a default (compressed) write into an empty cache with
  a ceiling of 100 bytes, read back 5 ms later; and a high-priority write of 10 bytes into
  the cache that holds a low-priority entry of 95 bytes under the same ceiling, where the
  write runs the eviction, the eviction deletes the old entry only, and the value is read
  back.
\<close>

theorem C1_witness:
  "(\<exists>h. fst (getCacheData demo_runtime 5 (Str ''k'')
            (snd (setCacheData demo_runtime 0 (Str ''k'') (Str ''v'') no_options (empty_cache 100))))
          = Result_found h \<and> hit_data h = Str ''v'') \<and>
   maxCacheSize one_low_cache
     < currentCacheSize one_low_cache
       + byte_length demo_runtime (serializedData demo_runtime
           (new_cacheEntry 0 (Str ''k'') (Str ''v'') (no_options\<lparr>opt_priority := Some High\<rparr>))) \<and>
   (\<exists>h. fst (getCacheData demo_runtime 5 (Str ''k'')
            (snd (setCacheData demo_runtime 0 (Str ''k'') (Str ''v'')
                    (no_options\<lparr>opt_priority := Some High\<rparr>) one_low_cache)))
          = Result_found h \<and> hit_data h = Str ''v'')"
proof -
  have t: "(5::int) - 0 \<le> ttl_of opts" if "opt_ttl opts = None" for opts
    using that by (simp add: ttl_of_def)
  have o: "opt_ttl no_options = None" "opt_ttl (no_options\<lparr>opt_priority := Some High\<rparr>) = None"
    by (simp_all add: no_options_def)
  have v: "ce_value (new_cacheEntry 0 (Str ''k'') (Str ''v'') opts) = Str ''v''" for opts
    by (simp add: new_cacheEntry_def)
  note T1 = C1_set_then_get_unless_evicted[of no_options demo_runtime 0 "Str ''k''" "Str ''v''" _ 5
      "empty_cache 100", OF _ demo_roundtrip(2) v t[OF o(1)]]
  have fit: "\<not> maxCacheSize (empty_cache 100)
      < currentCacheSize (empty_cache 100) + byte_length demo_runtime
          (serializedData demo_runtime (new_cacheEntry 0 (Str ''k'') (Str ''v'') no_options))"
    by (simp add: empty_cache_def demo_runtime_def)
  from T1 demo_roundtrip(1) fit
  have 1: "\<exists>h. fst (getCacheData demo_runtime 5 (Str ''k'')
            (snd (setCacheData demo_runtime 0 (Str ''k'') (Str ''v'') no_options (empty_cache 100))))
          = Result_found h \<and> hit_data h = Str ''v''"
    by blast
  note T2 = C1_set_then_get_unless_evicted[of "no_options\<lparr>opt_priority := Some High\<rparr>"
      demo_runtime 0 "Str ''k''" "Str ''v''" _ 5 one_low_cache, OF _ demo_roundtrip(2) v t[OF o(2)]]
  define S where "S = snd (setCacheData demo_runtime 0 (Str ''k'') (Str ''v'')
           (no_options\<lparr>opt_priority := Some High\<rparr>) one_low_cache)"
  have ck: "generateCacheKey demo_runtime (Str ''k'') = ''k''"
    by (simp add: generateCacheKey_def demo_runtime_def)
  have "fst ` set (cacheIndex S) = set (map fst (cacheIndex S))" by simp
  also have "map fst (cacheIndex S) = [''k'']" unfolding S_def by (rule one_low_cache_run(1))
  finally have "generateCacheKey demo_runtime (Str ''k'') \<in> fst ` set (cacheIndex S)"
    by (simp add: ck)
  then have mem: "generateCacheKey demo_runtime (Str ''k'')
      \<in> fst ` set (cacheIndex (snd (setCacheData demo_runtime 0 (Str ''k'') (Str ''v'')
           (no_options\<lparr>opt_priority := Some High\<rparr>) one_low_cache)))"
    unfolding S_def .
  from T2 demo_roundtrip(1) one_low_cache_run(3) mem
  have 2: "\<exists>h. fst (getCacheData demo_runtime 5 (Str ''k'')
            (snd (setCacheData demo_runtime 0 (Str ''k'') (Str ''v'')
                    (no_options\<lparr>opt_priority := Some High\<rparr>) one_low_cache)))
          = Result_found h \<and> hit_data h = Str ''v''"
    by (simp only: if_True) blast
  from 1 one_low_cache_run(2) 2 show ?thesis by blast
qed

text \<open>
  Claim C1 as stated fails: with a ceiling of 5 bytes the 10-byte entry puts the total above
  the ceiling, \<open>setCacheData\<close> runs \<open>evictOldCache\<close>, which deletes the entry just
  written, and the immediate read of the same key is a miss.
\<close>

theorem C1_counterexample:
  "gunzip demo_runtime (gzip demo_runtime
      (stringify demo_runtime (new_cacheEntry 0 (Str ''k'') (Str ''v'') no_options)))
     = Some (stringify demo_runtime (new_cacheEntry 0 (Str ''k'') (Str ''v'') no_options)) \<and>
   parse demo_runtime (stringify demo_runtime (new_cacheEntry 0 (Str ''k'') (Str ''v'') no_options))
     = Some (new_cacheEntry 0 (Str ''k'') (Str ''v'') no_options) \<and>
   (0::int) - 0 \<le> ttl_of no_options \<and>
   fst (getCacheData demo_runtime 0 (Str ''k'')
          (snd (setCacheData demo_runtime 0 (Str ''k'') (Str ''v'') no_options (empty_cache 5))))
     = Result_miss ''Cache miss''"
  by (simp add: cache_eval)

text \<open>
  Claim C4, as amended. For an indexed, unexpired entry: when its file is missing,
  \<open>getCacheData\<close> drops the key from the index and answers with a miss; when its stored
  bytes fail to decompress or to parse, \<open>getCacheData\<close> answers with an error reply and
  leaves the state, and so the index entry, as it was.
\<close>

theorem C4_undecodable_entry_is_reported:
  fixes R :: "('b, 'v) runtime"
  assumes "Map_get (cacheIndex s) (generateCacheKey R k) = Some info"
    and "\<not> now - ci_timestamp info > ci_ttl info"
  shows "(files s (ci_filePath info) = None \<longrightarrow>
            getCacheData R now k s =
              (Result_miss ''Cache file not found'',
               s\<lparr>cacheIndex := Map_delete (cacheIndex s) (generateCacheKey R k)\<rparr>)) \<and>
         (\<forall>raw. files s (ci_filePath info) = Some raw \<and>
                Option.bind (if ci_compressed info then gunzip R raw else Some raw) (parse R) = None
            \<longrightarrow> (\<exists>e. getCacheData R now k s = (Error_reply e, s)))"
  using assms
  by (auto simp: getCacheData_def Let_def split: option.splits Option.bind_splits)

text \<open>
  The amended claim at concrete states: an entry that fails to decompress, one that fails to
  parse, and one whose file is missing.
\<close>

theorem C4_witness:
  "getCacheData demo_runtime 5 (Str ''k'') (corrupt_cache True)
      = (Error_reply Gunzip_failed, corrupt_cache True) \<and>
   getCacheData demo_runtime 5 (Str ''k'') (corrupt_cache False)
      = (Error_reply JSON_parse_failed, corrupt_cache False) \<and>
   getCacheData demo_runtime 5 (Str ''k'') ((corrupt_cache True)\<lparr>files := (\<lambda>p. None)\<rparr>)
      = (Result_miss ''Cache file not found'',
         (corrupt_cache True)\<lparr>files := (\<lambda>p. None), cacheIndex := []\<rparr>)"
proof -
  let ?info = "\<lambda>c. \<lparr>ci_key = Str ''k'', ci_timestamp = 0, ci_ttl = 1000, ci_size = 10,
        ci_compressed = c, ci_priority = Normal, ci_filePath = cacheFilePath ''c'' ''k''\<rparr>"
  have g: "Map_get (cacheIndex (corrupt_cache c)) (generateCacheKey demo_runtime (Str ''k''))
        = Some (?info c)" for c
    by (simp add: corrupt_cache_def generateCacheKey_def demo_runtime_def)
  have g': "Map_get (cacheIndex ((corrupt_cache True)\<lparr>files := (\<lambda>p. None)\<rparr>))
        (generateCacheKey demo_runtime (Str ''k'')) = Some (?info True)"
    by (simp add: corrupt_cache_def generateCacheKey_def demo_runtime_def)
  have t: "\<not> 5 - ci_timestamp (?info c) > ci_ttl (?info c)" for c by simp
  note a = C4_undecodable_entry_is_reported[OF g t, of True]
  note b = C4_undecodable_entry_is_reported[OF g t, of False]
  note c = C4_undecodable_entry_is_reported[OF g' t]
  have 1: "\<exists>e. getCacheData demo_runtime 5 (Str ''k'') (corrupt_cache True)
             = (Error_reply e, corrupt_cache True)"
    using a by (simp add: corrupt_cache_def demo_runtime_def)
  have 2: "\<exists>e. getCacheData demo_runtime 5 (Str ''k'') (corrupt_cache False)
             = (Error_reply e, corrupt_cache False)"
    using b by (simp add: corrupt_cache_def demo_runtime_def)
  have 3: "getCacheData demo_runtime 5 (Str ''k'') ((corrupt_cache True)\<lparr>files := (\<lambda>p. None)\<rparr>)
      = (Result_miss ''Cache file not found'',
         (corrupt_cache True)\<lparr>files := (\<lambda>p. None), cacheIndex := []\<rparr>)"
    using c by (simp add: corrupt_cache_def demo_runtime_def generateCacheKey_def)
  have 4: "fst (getCacheData demo_runtime 5 (Str ''k'') (corrupt_cache True)) = Error_reply Gunzip_failed"
    by (simp add: getCacheData_def corrupt_cache_def demo_runtime_def generateCacheKey_def Let_def)
  have 5: "fst (getCacheData demo_runtime 5 (Str ''k'') (corrupt_cache False)) = Error_reply JSON_parse_failed"
    by (simp add: getCacheData_def corrupt_cache_def demo_runtime_def generateCacheKey_def Let_def)
  from 1 2 3 4 5 show ?thesis by auto
qed

text \<open>
  Claim C4 as stated fails: the entry is indexed, its stored bytes do not decompress, and the
  read answers with an error reply and keeps the entry in the index.
\<close>

theorem C4_counterexample:
  "Map_get (cacheIndex (corrupt_cache True)) (generateCacheKey demo_runtime (Str ''k'')) \<noteq> None \<and>
   gunzip demo_runtime (the (files (corrupt_cache True) (cacheFilePath ''c'' ''k''))) = None \<and>
   fst (getCacheData demo_runtime 5 (Str ''k'') (corrupt_cache True)) = Error_reply Gunzip_failed \<and>
   cacheIndex (snd (getCacheData demo_runtime 5 (Str ''k'') (corrupt_cache True)))
     = cacheIndex (corrupt_cache True)"
  by (simp add: getCacheData_def corrupt_cache_def demo_runtime_def generateCacheKey_def Let_def)





section \<open>Assignment and shutdown of the pool\<close>

lemma queue_cmp_le: "queue_cmp x y \<le> 0 \<longleftrightarrow> taskPriorityOrder (t_priority y) \<le> taskPriorityOrder (t_priority x)"
  by (simp add: queue_cmp_def)

lemma insert_by_front:
  "(\<forall>y\<in>set ys. cmp x y \<le> 0) \<Longrightarrow> insert_by cmp x ys = x # ys"
  by (cases ys) auto

lemma js_sort_snoc_sorted:
  assumes "queue_sorted q"
  shows "js_sort queue_cmp (q @ [n]) =
           filter (\<lambda>x. taskPriorityOrder (t_priority n) \<le> taskPriorityOrder (t_priority x)) q @ [n] @ filter (\<lambda>x. taskPriorityOrder (t_priority x) < taskPriorityOrder (t_priority n)) q"
  using assms
proof (induction q)
  case Nil
  then show ?case by simp
next
  case (Cons x q)
  from Cons.prems have srt: "queue_sorted q" and ge: "\<forall>y\<in>set q. taskPriorityOrder (t_priority y) \<le> taskPriorityOrder (t_priority x)"
    by (auto simp: queue_sorted_def)
  note IH = Cons.IH[OF srt]
  show ?case
  proof (cases "taskPriorityOrder (t_priority n) \<le> taskPriorityOrder (t_priority x)")
    case True
    have "\<forall>y\<in>set (filter (\<lambda>x. taskPriorityOrder (t_priority n) \<le> taskPriorityOrder (t_priority x)) q @ [n] @ filter (\<lambda>x. taskPriorityOrder (t_priority x) < taskPriorityOrder (t_priority n)) q).
            queue_cmp x y \<le> 0"
      using ge True by (auto simp: queue_cmp_le)
    then have "insert_by queue_cmp x (filter (\<lambda>x. taskPriorityOrder (t_priority n) \<le> taskPriorityOrder (t_priority x)) q @ [n] @ filter (\<lambda>x. taskPriorityOrder (t_priority x) < taskPriorityOrder (t_priority n)) q)
        = x # (filter (\<lambda>x. taskPriorityOrder (t_priority n) \<le> taskPriorityOrder (t_priority x)) q @ [n] @ filter (\<lambda>x. taskPriorityOrder (t_priority x) < taskPriorityOrder (t_priority n)) q)"
      by (rule insert_by_front)
    moreover have "js_sort queue_cmp ((x # q) @ [n]) = insert_by queue_cmp x (js_sort queue_cmp (q @ [n]))"
      by simp
    ultimately show ?thesis
      using True by (simp only: IH) simp
  next
    case False
    then have lt: "taskPriorityOrder (t_priority x) < taskPriorityOrder (t_priority n)" by simp
    with ge have all: "\<forall>y\<in>set q. taskPriorityOrder (t_priority y) < taskPriorityOrder (t_priority n)" by fastforce
    then have f1: "filter (\<lambda>x. taskPriorityOrder (t_priority n) \<le> taskPriorityOrder (t_priority x)) q = []" and f2: "filter (\<lambda>x. taskPriorityOrder (t_priority x) < taskPriorityOrder (t_priority n)) q = q"
      by (auto simp: filter_empty_conv filter_id_conv)
    have "insert_by queue_cmp x (n # q) = n # insert_by queue_cmp x q"
      using lt by (simp add: queue_cmp_le)
    also have "insert_by queue_cmp x q = x # q"
      using ge by (intro insert_by_front) (simp add: queue_cmp_le)
    finally show ?thesis
      using lt by (simp add: IH f1 f2)
  qed
qed

lemma queue_sorted_enqueue:
  assumes "queue_sorted q"
  shows "queue_sorted (enqueue n q)"
proof -
  have "sorted_wrt (\<lambda>a b. taskPriorityOrder (t_priority b) \<le> taskPriorityOrder (t_priority a)) (filter (\<lambda>x. taskPriorityOrder (t_priority n) \<le> taskPriorityOrder (t_priority x)) q)"
       "sorted_wrt (\<lambda>a b. taskPriorityOrder (t_priority b) \<le> taskPriorityOrder (t_priority a)) (filter (\<lambda>x. taskPriorityOrder (t_priority x) < taskPriorityOrder (t_priority n)) q)"
    using assms by (auto simp: queue_sorted_def sorted_wrt_filter)
  then show ?thesis
    unfolding enqueue_def js_sort_snoc_sorted[OF assms] queue_sorted_def
    by (auto simp: sorted_wrt_append)
qed

lemma find_Some_props:
  "List.find P xs = Some x \<Longrightarrow> x \<in> set xs \<and> P x"
  by (induction xs) (auto split: if_splits)


lemma find_None_props: "List.find P xs = None \<Longrightarrow> \<forall>x\<in>set xs. \<not> P x"
  by (simp add: find_None_iff)

lemma end_of_turn_idle: "suspended s = [] \<Longrightarrow> end_of_turn s = s"
  by (simp add: end_of_turn_def)

lemma suspended_assignTaskToWorker [simp]:
  "suspended (assignTaskToWorker w t s) = suspended s"
  by (simp add: assignTaskToWorker_def)

lemma assignTask_found:
  assumes "taskQueue s = t # rest" and "findAvailableWorker s (t_type t) = Some w"
  shows "assignTask s = assignTaskToWorker w t (s\<lparr>taskQueue := rest\<rparr>)"
  using assms by (simp add: assignTask_def)

lemma assignTask_create:
  assumes "taskQueue s = t # rest" and "findAvailableWorker s (t_type t) = None"
    and "length (workers s) < maxWorkers s" and "createWorker (t_type t) s = Inr (w, s1)"
  shows "assignTask s = s1\<lparr>suspended := suspended s1 @ [(w, t)]\<rparr>"
  using assms by (simp add: assignTask_def)

lemma assignTask_stay:
  assumes "taskQueue s = t # rest" and "findAvailableWorker s (t_type t) = None"
    and "maxWorkers s \<le> length (workers s) \<or> (\<exists>e. createWorker (t_type t) s = Inl e)"
  shows "assignTask s = s"
  using assms by (auto simp add: assignTask_def)

lemma assignment_pass_found:
  assumes "taskQueue s = t # rest" and "findAvailableWorker s (t_type t) = Some w"
    and "suspended s = []"
  shows "assignment_pass s = assignTaskToWorker w t (s\<lparr>taskQueue := rest\<rparr>)"
  using assms(3) by (simp add: assignment_pass_def assignTask_found[OF assms(1,2)] end_of_turn_idle)

lemma assignment_pass_create:
  assumes "taskQueue s = t # rest" and "findAvailableWorker s (t_type t) = None"
    and "length (workers s) < maxWorkers s" and "createWorker (t_type t) s = Inr (w, s1)"
    and "suspended s1 = []"
  shows "assignment_pass s = assignTaskToWorker w t (s1\<lparr>taskQueue := tl (taskQueue s1)\<rparr>)"
  unfolding assignment_pass_def assignTask_create[OF assms(1-4)]
  using assms(5)
  by (intro pool.equality)
     (simp_all add: end_of_turn_def resume_assignTask_def assignTaskToWorker_def)

lemma assignment_pass_stay:
  assumes "taskQueue s = t # rest" and "findAvailableWorker s (t_type t) = None"
    and "maxWorkers s \<le> length (workers s) \<or> (\<exists>e. createWorker (t_type t) s = Inl e)"
    and "suspended s = []"
  shows "assignment_pass s = s"
  using assms(4) by (simp add: assignment_pass_def assignTask_stay[OF assms(1-3)] end_of_turn_idle)

lemma findAvailableWorker_match:
  "List.find (\<lambda>w. w_type (worker_objs s w) = ty) (availableWorkers s) = Some w
     \<Longrightarrow> findAvailableWorker s ty = Some w"
  by (simp add: findAvailableWorker_def)

lemma findAvailableWorker_any:
  "List.find (\<lambda>w. w_type (worker_objs s w) = ty) (availableWorkers s) = None
     \<Longrightarrow> availableWorkers s = w # ws \<Longrightarrow> findAvailableWorker s ty = Some w"
  by (simp add: findAvailableWorker_def)

lemma findAvailableWorker_none:
  "availableWorkers s = [] \<Longrightarrow> findAvailableWorker s ty = None"
  by (simp add: findAvailableWorker_def)

lemma createWorker_ok:
  assumes "\<not> isShuttingDown s" and "ty \<in> set workerTypes"
  shows "\<exists>w s1. createWorker ty s = Inr (w, s1) \<and> w_type (worker_objs s1 w) = ty \<and>
           workers s1 = keys_set (workers s) w \<and> taskQueue s1 = taskQueue s \<and>
           w \<in> set (availableWorkers s1) \<and> suspended s1 = suspended s"
  using assms by (simp add: createWorker_def Let_def keys_set_def)

lemma createWorker_refused:
  assumes "isShuttingDown s \<or> ty \<notin> set workerTypes"
  shows "\<exists>e. createWorker ty s = Inl e"
  using assms by (auto simp add: createWorker_def)

lemma assignTaskToWorker_effect:
  "w_currentTask (worker_objs (assignTaskToWorker w t s) w) = Some t \<and>
   w_busy (worker_objs (assignTaskToWorker w t s) w) \<and>
   w \<in> set (busyWorkers (assignTaskToWorker w t s)) \<and>
   w \<notin> set (availableWorkers (assignTaskToWorker w t s)) \<and>
   workers (assignTaskToWorker w t s) = workers s \<and>
   taskQueue (assignTaskToWorker w t s) = taskQueue s"
  by (simp add: assignTaskToWorker_def keys_set_def keys_delete_def)

text \<open>
  Claim C2, as amended, for an assignment pass that nothing interrupts (no other pass is
  suspended when it starts, and it resumes straight after suspending). On a queue in the
  order \<open>executeTask\<close> keeps it in, the task the pass takes is the head, which has the
  highest priority present; and a new task is queued behind every task of its own or a
  higher priority and before every task of a lower one, the others keeping their order, so
  equal priorities leave in the order they came. The task goes to the first idle executor
  of its kind when there is one; failing that, to the first idle executor of any kind; only
  when no executor is idle and the pool is below \<open>maxWorkers\<close> (and is not shutting down,
  and the kind is known) is an executor of the task's kind created, the pass suspending
  with the executor registered and the task still queued, and given the task when the pass
  resumes; otherwise nothing changes and the task stays queued.
\<close>

theorem C2_assignment_pass:
  assumes "queue_sorted (taskQueue s)" and "taskQueue s = t # rest" and "suspended s = []"
  shows
   "(\<forall>x\<in>set rest. taskPriorityOrder (t_priority x) \<le> taskPriorityOrder (t_priority t)) \<and>
    (\<forall>n. enqueue n (taskQueue s) =
            filter (\<lambda>x. taskPriorityOrder (t_priority n) \<le> taskPriorityOrder (t_priority x)) (taskQueue s)
            @ [n] @
            filter (\<lambda>x. taskPriorityOrder (t_priority x) < taskPriorityOrder (t_priority n)) (taskQueue s)
          \<and> queue_sorted (enqueue n (taskQueue s))) \<and>
    queue_sorted rest \<and>
    (\<forall>w. List.find (\<lambda>w. w_type (worker_objs s w) = t_type t) (availableWorkers s) = Some w \<longrightarrow>
          w \<in> set (availableWorkers s) \<and> w_type (worker_objs s w) = t_type t \<and>
          assignment_pass s = assignTaskToWorker w t (s\<lparr>taskQueue := rest\<rparr>)) \<and>
    (\<forall>w ws. List.find (\<lambda>w. w_type (worker_objs s w) = t_type t) (availableWorkers s) = None \<and>
             availableWorkers s = w # ws \<longrightarrow>
          w_type (worker_objs s w) \<noteq> t_type t \<and>
          assignment_pass s = assignTaskToWorker w t (s\<lparr>taskQueue := rest\<rparr>)) \<and>
    (availableWorkers s = [] \<and> length (workers s) < maxWorkers s \<and> \<not> isShuttingDown s \<and>
     t_type t \<in> set workerTypes \<longrightarrow>
       (\<exists>w s1. createWorker (t_type t) s = Inr (w, s1) \<and>
               w_type (worker_objs s1 w) = t_type t \<and> workers s1 = keys_set (workers s) w \<and>
               assignTask s = s1\<lparr>suspended := [(w, t)]\<rparr> \<and>
               w \<in> set (availableWorkers (assignTask s)) \<and> taskQueue (assignTask s) = t # rest \<and>
               assignment_pass s = assignTaskToWorker w t (s1\<lparr>taskQueue := rest\<rparr>))) \<and>
    (availableWorkers s = [] \<and>
     (maxWorkers s \<le> length (workers s) \<or> isShuttingDown s \<or> t_type t \<notin> set workerTypes) \<longrightarrow>
       assignment_pass s = s) \<and>
    (\<forall>w p. w_currentTask (worker_objs (assignTaskToWorker w t p) w) = Some t \<and>
           w \<in> set (busyWorkers (assignTaskToWorker w t p)) \<and>
           w \<notin> set (availableWorkers (assignTaskToWorker w t p)) \<and>
           workers (assignTaskToWorker w t p) = workers p \<and>
           taskQueue (assignTaskToWorker w t p) = taskQueue p)"
proof -
  let ?match = "\<lambda>w. w_type (worker_objs s w) = t_type t"
  from assms have hi: "\<forall>x\<in>set rest. taskPriorityOrder (t_priority x) \<le> taskPriorityOrder (t_priority t)"
    and rs: "queue_sorted rest"
    by (auto simp: queue_sorted_def)
  have enq: "\<forall>n. enqueue n (taskQueue s) =
            filter (\<lambda>x. taskPriorityOrder (t_priority n) \<le> taskPriorityOrder (t_priority x)) (taskQueue s)
            @ [n] @
            filter (\<lambda>x. taskPriorityOrder (t_priority x) < taskPriorityOrder (t_priority n)) (taskQueue s)
          \<and> queue_sorted (enqueue n (taskQueue s))"
    using js_sort_snoc_sorted[OF assms(1)] queue_sorted_enqueue[OF assms(1)]
    by (simp add: enqueue_def)
  have m: "\<forall>w. List.find ?match (availableWorkers s) = Some w \<longrightarrow>
          w \<in> set (availableWorkers s) \<and> w_type (worker_objs s w) = t_type t \<and>
          assignment_pass s = assignTaskToWorker w t (s\<lparr>taskQueue := rest\<rparr>)"
  proof (intro allI impI)
    fix w assume f: "List.find ?match (availableWorkers s) = Some w"
    from find_Some_props[OF f]
         assignment_pass_found[OF assms(2) findAvailableWorker_match[OF f] assms(3)]
    show "w \<in> set (availableWorkers s) \<and> w_type (worker_objs s w) = t_type t \<and>
          assignment_pass s = assignTaskToWorker w t (s\<lparr>taskQueue := rest\<rparr>)"
      by simp
  qed
  have mm: "\<forall>w ws. List.find ?match (availableWorkers s) = None \<and> availableWorkers s = w # ws \<longrightarrow>
          w_type (worker_objs s w) \<noteq> t_type t \<and>
          assignment_pass s = assignTaskToWorker w t (s\<lparr>taskQueue := rest\<rparr>)"
  proof (intro allI impI)
    fix w ws
    assume a: "List.find ?match (availableWorkers s) = None \<and> availableWorkers s = w # ws"
    then have f: "List.find ?match (availableWorkers s) = None" and av: "availableWorkers s = w # ws"
      by (rule conjunct1, rule conjunct2)
    from find_None_props[OF f] av have "w_type (worker_objs s w) \<noteq> t_type t" by simp
    with assignment_pass_found[OF assms(2) findAvailableWorker_any[OF f av] assms(3)]
    show "w_type (worker_objs s w) \<noteq> t_type t \<and>
          assignment_pass s = assignTaskToWorker w t (s\<lparr>taskQueue := rest\<rparr>)"
      by simp
  qed
  have cr: "availableWorkers s = [] \<and> length (workers s) < maxWorkers s \<and> \<not> isShuttingDown s \<and>
     t_type t \<in> set workerTypes \<longrightarrow>
       (\<exists>w s1. createWorker (t_type t) s = Inr (w, s1) \<and>
               w_type (worker_objs s1 w) = t_type t \<and> workers s1 = keys_set (workers s) w \<and>
               assignTask s = s1\<lparr>suspended := [(w, t)]\<rparr> \<and>
               w \<in> set (availableWorkers (assignTask s)) \<and> taskQueue (assignTask s) = t # rest \<and>
               assignment_pass s = assignTaskToWorker w t (s1\<lparr>taskQueue := rest\<rparr>))"
  proof
    assume a: "availableWorkers s = [] \<and> length (workers s) < maxWorkers s \<and> \<not> isShuttingDown s \<and>
       t_type t \<in> set workerTypes"
    then obtain w s1 where c: "createWorker (t_type t) s = Inr (w, s1)"
      "w_type (worker_objs s1 w) = t_type t" "workers s1 = keys_set (workers s) w"
      "taskQueue s1 = taskQueue s" "w \<in> set (availableWorkers s1)" "suspended s1 = suspended s"
      using createWorker_ok[of s "t_type t"] by blast
    from a have n: "findAvailableWorker s (t_type t) = None" and l: "length (workers s) < maxWorkers s"
      by (simp_all add: findAvailableWorker_none)
    from c(6) assms(3) have s1: "suspended s1 = []" by simp
    from assignTask_create[OF assms(2) n l c(1)] s1
    have 1: "assignTask s = s1\<lparr>suspended := [(w, t)]\<rparr>" by simp
    from 1 c(5) have 2: "w \<in> set (availableWorkers (assignTask s))" by simp
    from 1 c(4) assms(2) have 3: "taskQueue (assignTask s) = t # rest" by simp
    from assignment_pass_create[OF assms(2) n l c(1) s1] c(4) assms(2)
    have 4: "assignment_pass s = assignTaskToWorker w t (s1\<lparr>taskQueue := rest\<rparr>)" by simp
    from c(1,2,3) 1 2 3 4 show "\<exists>w s1. createWorker (t_type t) s = Inr (w, s1) \<and>
               w_type (worker_objs s1 w) = t_type t \<and> workers s1 = keys_set (workers s) w \<and>
               assignTask s = s1\<lparr>suspended := [(w, t)]\<rparr> \<and>
               w \<in> set (availableWorkers (assignTask s)) \<and> taskQueue (assignTask s) = t # rest \<and>
               assignment_pass s = assignTaskToWorker w t (s1\<lparr>taskQueue := rest\<rparr>)"
      by blast
  qed
  have st: "availableWorkers s = [] \<and>
     (maxWorkers s \<le> length (workers s) \<or> isShuttingDown s \<or> t_type t \<notin> set workerTypes) \<longrightarrow>
       assignment_pass s = s"
  proof
    assume a: "availableWorkers s = [] \<and>
     (maxWorkers s \<le> length (workers s) \<or> isShuttingDown s \<or> t_type t \<notin> set workerTypes)"
    then have n: "findAvailableWorker s (t_type t) = None"
      by (simp add: findAvailableWorker_none)
    from a createWorker_refused[of s "t_type t"]
    have "maxWorkers s \<le> length (workers s) \<or> (\<exists>e. createWorker (t_type t) s = Inl e)"
      by blast
    from assignment_pass_stay[OF assms(2) n this assms(3)] show "assignment_pass s = s" .
  qed
  have eff: "\<forall>w p. w_currentTask (worker_objs (assignTaskToWorker w t p) w) = Some t \<and>
           w \<in> set (busyWorkers (assignTaskToWorker w t p)) \<and>
           w \<notin> set (availableWorkers (assignTaskToWorker w t p)) \<and>
           workers (assignTaskToWorker w t p) = workers p \<and>
           taskQueue (assignTaskToWorker w t p) = taskQueue p"
    by (simp add: assignTaskToWorker_effect)
  show ?thesis
    by (intro conjI) (fact hi enq rs m mm cr st eff)+
qed

lemma show_nat_1: "show_nat 1 = ''1''" "show_nat (Suc 0) = ''1''"
  by (simp_all add: show_nat.simps digit_char_def)

lemmas pass_eval =
  assignment_pass_def end_of_turn_def resume_assignTask_def assignTask_def
  findAvailableWorker_def createWorker_def workerTypes_def demo_task_def idle_info_def Let_def
  show_nat_1 assignTaskToWorker_def keys_set_def keys_delete_def

text \<open>
  The amended claim at concrete pools: one idle \<open>processor\<close> executor and a task for a
  \<open>parser\<close> (the idle executor gets it), no executor at all (a \<open>parser\<close> executor is
  created), and no executor while shutting down (the task stays queued).
\<close>

theorem C2_witness:
  "queue_sorted (taskQueue demo_pool) \<and>
   taskQueue demo_pool = [demo_task ''t1'' ''parser'' Normal] \<and> suspended demo_pool = [] \<and>
   assignment_pass demo_pool =
     assignTaskToWorker ''processor-1'' (demo_task ''t1'' ''parser'' Normal) (demo_pool\<lparr>taskQueue := []\<rparr>) \<and>
   queue_sorted (taskQueue empty_pool) \<and> suspended empty_pool = [] \<and>
   availableWorkers empty_pool = [] \<and> length (workers empty_pool) < maxWorkers empty_pool \<and>
   (\<exists>w s1. createWorker ''parser'' empty_pool = Inr (w, s1) \<and>
           w_type (worker_objs s1 w) = ''parser'' \<and>
           assignment_pass empty_pool
             = assignTaskToWorker w (demo_task ''t1'' ''parser'' Normal) (s1\<lparr>taskQueue := []\<rparr>)) \<and>
   workers (assignment_pass empty_pool) = [''parser-1''] \<and>
   assignment_pass (empty_pool\<lparr>isShuttingDown := True\<rparr>) = empty_pool\<lparr>isShuttingDown := True\<rparr>"
proof -
  have q: "queue_sorted (taskQueue demo_pool)" "queue_sorted (taskQueue empty_pool)"
    "queue_sorted (taskQueue (empty_pool\<lparr>isShuttingDown := True\<rparr>))"
    by (simp_all add: queue_sorted_def demo_pool_def empty_pool_def)
  have h: "taskQueue demo_pool = [demo_task ''t1'' ''parser'' Normal]"
    "taskQueue empty_pool = [demo_task ''t1'' ''parser'' Normal]"
    "taskQueue (empty_pool\<lparr>isShuttingDown := True\<rparr>) = [demo_task ''t1'' ''parser'' Normal]"
    by (simp_all add: demo_pool_def empty_pool_def)
  have u: "suspended demo_pool = []" "suspended empty_pool = []"
    "suspended (empty_pool\<lparr>isShuttingDown := True\<rparr>) = []"
    by (simp_all add: demo_pool_def empty_pool_def)
  have f: "List.find (\<lambda>w. w_type (worker_objs demo_pool w) = t_type (demo_task ''t1'' ''parser'' Normal))
             (availableWorkers demo_pool) = None \<and> availableWorkers demo_pool = ''processor-1'' # []"
    by (simp add: demo_pool_def demo_task_def idle_info_def)
  note pass = C2_assignment_pass[OF q(1) h(1) u(1)]
  note mismatch = pass[THEN conjunct2, THEN conjunct2, THEN conjunct2, THEN conjunct2,
      THEN conjunct1, rule_format, OF f]
  have a: "assignment_pass demo_pool =
     assignTaskToWorker ''processor-1'' (demo_task ''t1'' ''parser'' Normal) (demo_pool\<lparr>taskQueue := []\<rparr>)"
    using mismatch by (rule conjunct2)
  have c: "availableWorkers empty_pool = [] \<and> length (workers empty_pool) < maxWorkers empty_pool \<and>
      \<not> isShuttingDown empty_pool \<and> t_type (demo_task ''t1'' ''parser'' Normal) \<in> set workerTypes"
    by (simp add: empty_pool_def demo_task_def workerTypes_def)
  note pass2 = C2_assignment_pass[OF q(2) h(2) u(2)]
  note create = pass2[THEN conjunct2, THEN conjunct2, THEN conjunct2, THEN conjunct2,
      THEN conjunct2, THEN conjunct1, rule_format, OF c]
  have ty: "t_type (demo_task ''t1'' ''parser'' Normal) = ''parser''" by (simp add: demo_task_def)
  from create have cr: "\<exists>w s1. createWorker ''parser'' empty_pool = Inr (w, s1) \<and>
           w_type (worker_objs s1 w) = ''parser'' \<and>
           assignment_pass empty_pool
             = assignTaskToWorker w (demo_task ''t1'' ''parser'' Normal) (s1\<lparr>taskQueue := []\<rparr>)"
    unfolding ty by blast
  have d: "availableWorkers (empty_pool\<lparr>isShuttingDown := True\<rparr>) = [] \<and>
      (maxWorkers (empty_pool\<lparr>isShuttingDown := True\<rparr>) \<le> length (workers (empty_pool\<lparr>isShuttingDown := True\<rparr>))
       \<or> isShuttingDown (empty_pool\<lparr>isShuttingDown := True\<rparr>)
       \<or> t_type (demo_task ''t1'' ''parser'' Normal) \<notin> set workerTypes)"
    by (simp add: empty_pool_def)
  note pass3 = C2_assignment_pass[OF q(3) h(3) u(3)]
  note stay = pass3[THEN conjunct2, THEN conjunct2, THEN conjunct2, THEN conjunct2,
      THEN conjunct2, THEN conjunct2, THEN conjunct1, rule_format, OF d]
  have e: "workers (assignment_pass empty_pool) = [''parser-1'']"
    by (simp add: pass_eval empty_pool_def)
  from q h u a c cr e stay show ?thesis by simp
qed

text \<open>
  Claim C2 as stated fails: no idle executor matches the task's kind and the pool is below
  its maximum, yet no executor is created and the task is given to the idle executor of the
  other kind.
\<close>

theorem C2_counterexample:
  "List.find (\<lambda>w. w_type (worker_objs demo_pool w) = ''parser'') (availableWorkers demo_pool) = None \<and>
   t_type (hd (taskQueue demo_pool)) = ''parser'' \<and>
   length (workers demo_pool) < maxWorkers demo_pool \<and>
   workers (assignment_pass demo_pool) = workers demo_pool \<and>
   w_currentTask (worker_objs (assignment_pass demo_pool) ''processor-1'')
     = Some (demo_task ''t1'' ''parser'' Normal) \<and>
   w_type (worker_objs (assignment_pass demo_pool) ''processor-1'') = ''processor''"
  by (simp add: pass_eval demo_pool_def)

text \<open>
  Outside the amended claim: two tasks submitted in the same turn to a pool without
  executors. The first pass creates an executor and suspends; the second pass finds that
  executor available and hands it the first task; the first pass then resumes, shifts the
  second task off the queue and hands the first task to the executor once more. The second
  task is neither queued nor posted.
\<close>

lemma same_turn_submissions:
  "posted (end_of_turn (executeTask (demo_task ''t2'' ''parser'' Normal)
             (executeTask (demo_task ''t1'' ''parser'' Normal) (fresh_pool 2))))
     = [(''parser-1'', ''t1''), (''parser-1'', ''t1'')] \<and>
   taskQueue (end_of_turn (executeTask (demo_task ''t2'' ''parser'' Normal)
             (executeTask (demo_task ''t1'' ''parser'' Normal) (fresh_pool 2)))) = []"
  by (simp add: pass_eval executeTask_def enqueue_def queue_cmp_def fresh_pool_def)

lemma posted_assignTaskToWorker [simp]:
  "posted (assignTaskToWorker w t s) = posted s @ [(w, t_id t)]"
  by (simp add: assignTaskToWorker_def)

lemma settled_assignTaskToWorker [simp]: "settled (assignTaskToWorker w t s) = settled s"
  by (simp add: assignTaskToWorker_def)

lemma sd_assignTaskToWorker [simp]:
  "isShuttingDown (assignTaskToWorker w t s) = isShuttingDown s"
  by (simp add: assignTaskToWorker_def)

lemma terminated_assignTaskToWorker [simp]:
  "terminated (assignTaskToWorker w t s) = terminated s"
  by (simp add: assignTaskToWorker_def)

lemma queue_assignTaskToWorker [simp]: "taskQueue (assignTaskToWorker w t s) = taskQueue s"
  by (simp add: assignTaskToWorker_def)

lemma current_assignTaskToWorker:
  "w_currentTask (worker_objs (assignTaskToWorker w t s) w')
     = (if w' = w then Some t else w_currentTask (worker_objs s w'))"
  by (simp add: assignTaskToWorker_def)

lemma findAvailableWorker_mem:
  "findAvailableWorker s ty = Some w \<Longrightarrow> w \<in> set (availableWorkers s)"
  by (auto simp: findAvailableWorker_def split: option.splits list.splits dest: find_Some_props)

lemma assignTask_shutting_down:
  assumes "isShuttingDown s"
  shows "assignTask s = s \<or>
         (\<exists>t rest w. taskQueue s = t # rest \<and> w \<in> set (availableWorkers s) \<and>
                     assignTask s = assignTaskToWorker w t (s\<lparr>taskQueue := rest\<rparr>))"
proof (cases "taskQueue s")
  case Nil
  then show ?thesis by (simp add: assignTask_def)
next
  case (Cons t rest)
  show ?thesis
  proof (cases "findAvailableWorker s (t_type t)")
    case (Some w)
    from assignTask_found[OF Cons Some] findAvailableWorker_mem[OF Some] Cons
    show ?thesis by blast
  next
    case None
    from assms have "\<exists>e. createWorker (t_type t) s = Inl e"
      by (simp add: createWorker_refused)
    then have "assignTask s = s" by (intro assignTask_stay[OF Cons None]) simp
    then show ?thesis ..
  qed
qed

lemma inv_hand_over:
  assumes inv: "shutdown_inv T F s" and q: "taskQueue s = t # rest"
  shows "shutdown_inv T F (assignTaskToWorker w t (s\<lparr>taskQueue := rest\<rparr>))"
proof -
  let ?s = "assignTaskToWorker w t (s\<lparr>taskQueue := rest\<rparr>)"
  from inv have sd: "isShuttingDown s" and su: "suspended s = []"
    and cur: "\<And>w' t'. w_currentTask (worker_objs s w') = Some t' \<Longrightarrow> (w', t_id t') \<in> set (posted s)"
    and set: "\<And>i. i \<in> fst ` set (settled s) \<Longrightarrow> i \<in> snd ` set (posted s)"
    and dis: "distinct (map t_id (taskQueue s @ F))"
    and fr: "\<And>x. x \<in> set (taskQueue s @ F) \<Longrightarrow> t_id x \<notin> snd ` set (posted s)"
    and tr: "\<And>x. x \<in> set T \<Longrightarrow> x \<in> set (taskQueue s) \<or> t_id x \<in> snd ` set (posted s)"
    unfolding shutdown_inv_def accounted_def fresh_tasks_def tracked_def by blast+
  have 1: "isShuttingDown ?s" "suspended ?s = []" using sd su by simp_all
  have 2: "accounted ?s"
    unfolding accounted_def
  proof (intro conjI allI impI ballI)
    fix w' t' assume "w_currentTask (worker_objs ?s w') = Some t'"
    then have "(w' = w \<and> t' = t) \<or> w_currentTask (worker_objs s w') = Some t'"
      by (simp add: current_assignTaskToWorker split: if_splits)
    with cur show "(w', t_id t') \<in> set (posted ?s)" by auto
  next
    fix i assume "i \<in> fst ` set (settled ?s)"
    then have "i \<in> fst ` set (settled s)" by simp
    from set[OF this] show "i \<in> snd ` set (posted ?s)" by auto
  qed
  have 3: "fresh_tasks ?s F"
    unfolding fresh_tasks_def
  proof (intro conjI ballI)
    from dis q show "distinct (map t_id (taskQueue ?s @ F))" by simp
  next
    fix x assume x: "x \<in> set (taskQueue ?s @ F)"
    then have x': "x \<in> set (rest @ F)" by simp
    with q have "x \<in> set (taskQueue s @ F)" by auto
    from fr[OF this] have a: "t_id x \<notin> snd ` set (posted s)" .
    from dis q have "t_id t \<notin> t_id ` set (rest @ F)" by auto
    with x' have "t_id x \<noteq> t_id t" by (metis imageI)
    with a show "t_id x \<notin> snd ` set (posted ?s)" by auto
  qed
  have 4: "tracked T ?s"
    unfolding tracked_def
  proof
    fix x assume "x \<in> set T"
    from tr[OF this] q show "x \<in> set (taskQueue ?s) \<or> t_id x \<in> snd ` set (posted ?s)"
      by auto
  qed
  from 1 2 3 4 show ?thesis unfolding shutdown_inv_def by blast
qed

lemma inv_assignTask: "shutdown_inv T F s \<Longrightarrow> shutdown_inv T F (assignTask s)"
proof -
  assume inv: "shutdown_inv T F s"
  then have "isShuttingDown s" by (simp add: shutdown_inv_def)
  from assignTask_shutting_down[OF this] inv inv_hand_over[OF inv] show ?thesis by auto
qed

lemma terminated_assignTask_shutting_down:
  "isShuttingDown s \<Longrightarrow> terminated (assignTask s) = terminated s"
  using assignTask_shutting_down[of s] by auto

lemma inv_settle:
  assumes inv: "shutdown_inv T F s" and c: "w_currentTask (worker_objs s w) = Some t"
  shows "shutdown_inv T F ((releaseWorker w s)\<lparr>settled := settled s @ [(t_id t, oc)]\<rparr>)"
proof -
  let ?s = "(releaseWorker w s)\<lparr>settled := settled s @ [(t_id t, oc)]\<rparr>"
  from inv have sd: "isShuttingDown s" and su: "suspended s = []"
    and cur: "\<And>w' t'. w_currentTask (worker_objs s w') = Some t' \<Longrightarrow> (w', t_id t') \<in> set (posted s)"
    and set: "\<And>i. i \<in> fst ` set (settled s) \<Longrightarrow> i \<in> snd ` set (posted s)"
    and fr: "fresh_tasks s F" and tr: "tracked T s"
    unfolding shutdown_inv_def accounted_def by blast+
  have f: "posted ?s = posted s" "taskQueue ?s = taskQueue s" "isShuttingDown ?s = isShuttingDown s"
    "suspended ?s = suspended s" "settled ?s = settled s @ [(t_id t, oc)]"
    by (simp_all add: releaseWorker_def)
  have wc: "w_currentTask (worker_objs (releaseWorker w s) w')
      = (if w' = w then None else w_currentTask (worker_objs s w'))"
    for w' by (simp add: releaseWorker_def)
  have 2: "accounted ?s"
    unfolding accounted_def
  proof (intro conjI allI impI ballI)
    fix w' t' assume "w_currentTask (worker_objs ?s w') = Some t'"
    then have "w_currentTask (worker_objs s w') = Some t'" by (simp add: wc split: if_splits)
    from cur[OF this] show "(w', t_id t') \<in> set (posted ?s)" by (simp add: f)
  next
    fix i assume "i \<in> fst ` set (settled ?s)"
    then have "i = t_id t \<or> i \<in> fst ` set (settled s)" by (auto simp: f)
    then show "i \<in> snd ` set (posted ?s)"
    proof
      assume "i = t_id t"
      with cur[OF c] show ?thesis by (force simp: f)
    next
      assume "i \<in> fst ` set (settled s)"
      from set[OF this] show ?thesis by (simp add: f)
    qed
  qed
  from fr have 3: "fresh_tasks ?s F" by (simp add: fresh_tasks_def f)
  from tr have 4: "tracked T ?s" by (simp add: tracked_def f)
  from sd su 2 3 4 show ?thesis unfolding shutdown_inv_def by (simp add: f)
qed

lemma inv_completeTask:
  "shutdown_inv T F s \<Longrightarrow> w_currentTask (worker_objs s w) = Some t
     \<Longrightarrow> shutdown_inv T F (completeTask w t s)"
  unfolding completeTask_def by (intro inv_assignTask inv_settle)

lemma inv_failTask:
  "shutdown_inv T F s \<Longrightarrow> w_currentTask (worker_objs s w) = Some t
     \<Longrightarrow> shutdown_inv T F (failTask w t s)"
  unfolding failTask_def by (intro inv_assignTask inv_settle)

lemma inv_enqueue:
  assumes "shutdown_inv T (t # F) s"
  shows "shutdown_inv T F (s\<lparr>taskQueue := enqueue t (taskQueue s)\<rparr>)"
proof -
  let ?s = "s\<lparr>taskQueue := enqueue t (taskQueue s)\<rparr>"
  have m: "mset (enqueue t (taskQueue s)) = mset (taskQueue s @ [t])"
    by (simp add: enqueue_def mset_js_sort)
  then have st: "set (enqueue t (taskQueue s)) = set (taskQueue s @ [t])"
    by (rule mset_eq_setD)
  from m have "mset (map t_id (enqueue t (taskQueue s) @ F)) = mset (map t_id (taskQueue s @ t # F))"
    by simp
  then have d: "distinct (map t_id (enqueue t (taskQueue s) @ F))
      \<longleftrightarrow> distinct (map t_id (taskQueue s @ t # F))"
    by (rule mset_eq_imp_distinct_iff)
  from assms have sd: "isShuttingDown s" and su: "suspended s = []" and ac: "accounted s"
    and dis: "distinct (map t_id (taskQueue s @ t # F))"
    and fr: "\<And>x. x \<in> set (taskQueue s @ t # F) \<Longrightarrow> t_id x \<notin> snd ` set (posted s)"
    and tr: "\<And>x. x \<in> set T \<Longrightarrow> x \<in> set (taskQueue s) \<or> t_id x \<in> snd ` set (posted s)"
    unfolding shutdown_inv_def fresh_tasks_def tracked_def by blast+
  have 2: "accounted ?s" using ac by (simp add: accounted_def)
  have 3: "fresh_tasks ?s F"
    unfolding fresh_tasks_def
  proof (intro conjI ballI)
    from d dis show "distinct (map t_id (taskQueue ?s @ F))" by simp
  next
    fix x assume "x \<in> set (taskQueue ?s @ F)"
    then have "x \<in> set (taskQueue s @ t # F)" using st by auto
    from fr[OF this] show "t_id x \<notin> snd ` set (posted ?s)" by simp
  qed
  have 4: "tracked T ?s"
    unfolding tracked_def
  proof
    fix x assume "x \<in> set T"
    from tr[OF this] st show "x \<in> set (taskQueue ?s) \<or> t_id x \<in> snd ` set (posted ?s)" by auto
  qed
  from sd su 2 3 4 show ?thesis unfolding shutdown_inv_def by simp
qed

lemma inv_executeTask: "shutdown_inv T (t # F) s \<Longrightarrow> shutdown_inv T F (executeTask t s)"
  unfolding executeTask_def by (intro inv_assignTask inv_enqueue)

lemma inv_removeWorker: "shutdown_inv T F s \<Longrightarrow> shutdown_inv T F (removeWorker w s)"
  by (simp add: removeWorker_def shutdown_inv_def accounted_def fresh_tasks_def tracked_def)

lemma recreateWorker_shutting_down: "isShuttingDown s \<Longrightarrow> recreateWorker w s = s"
  by (simp add: recreateWorker_def createWorker_def)

lemma inv_sd: "shutdown_inv T F s \<Longrightarrow> isShuttingDown s"
  by (simp add: shutdown_inv_def)

lemma inv_handleWorkerError:
  assumes "shutdown_inv T F s"
  shows "shutdown_inv T F (handleWorkerError w s)"
proof (cases "w_currentTask (worker_objs s w)")
  case None
  with assms show ?thesis
    by (simp add: handleWorkerError_def recreateWorker_shutting_down[OF inv_sd])
next
  case (Some t)
  from inv_failTask[OF assms Some] have i: "shutdown_inv T F (failTask w t s)" .
  with Some show ?thesis
    by (simp add: handleWorkerError_def recreateWorker_shutting_down[OF inv_sd[OF i]])
qed

lemma inv_handleWorkerExit:
  assumes "shutdown_inv T F s"
  shows "shutdown_inv T F (handleWorkerExit w code s)"
proof -
  from inv_removeWorker[OF assms] have i: "shutdown_inv T F (removeWorker w s)" .
  with inv_sd[OF i] show ?thesis by (simp add: handleWorkerExit_def Let_def)
qed

lemma inv_handleTaskResult: "shutdown_inv T F s \<Longrightarrow> shutdown_inv T F (handleTaskResult w m s)"
  by (auto simp: handleTaskResult_def split: option.splits intro: inv_completeTask)

lemma inv_handleTaskError: "shutdown_inv T F s \<Longrightarrow> shutdown_inv T F (handleTaskError w m s)"
  by (auto simp: handleTaskError_def split: option.splits intro: inv_failTask)

lemma inv_dispatch:
  "shutdown_inv T (submitted [ev] @ F) s \<Longrightarrow> shutdown_inv T F (dispatch ev s)"
  by (cases ev)
     (simp_all add: inv_handleTaskResult inv_handleTaskError inv_handleWorkerError
        inv_handleWorkerExit inv_executeTask)

lemma inv_end_of_turn: "shutdown_inv T F s \<Longrightarrow> end_of_turn s = s"
  by (simp add: shutdown_inv_def end_of_turn_idle)

lemma inv_handle_event:
  assumes "shutdown_inv T (submitted [ev] @ F) s"
  shows "shutdown_inv T F (handle_event ev s)"
proof -
  from inv_dispatch[OF assms] have i: "shutdown_inv T F (dispatch ev s)" .
  with inv_end_of_turn[OF i] show ?thesis by (simp add: handle_event_def)
qed

lemma submitted_Cons: "submitted (ev # evs) = submitted [ev] @ submitted evs"
  by (cases ev) simp_all

lemma inv_drop: "shutdown_inv T (A @ F) s \<Longrightarrow> shutdown_inv T F s"
  by (auto simp: shutdown_inv_def fresh_tasks_def)

lemma inv_run_events:
  "shutdown_inv T (submitted evs @ F) s \<Longrightarrow> shutdown_inv T F (run_events evs s)"
proof (induction evs arbitrary: s)
  case Nil
  then show ?case by (simp add: run_events_def)
next
  case (Cons ev evs)
  from Cons.prems have "shutdown_inv T (submitted [ev] @ (submitted evs @ F)) s"
    by (simp add: submitted_Cons[of ev evs])
  from inv_handle_event[OF this] have "shutdown_inv T (submitted evs @ F) (handle_event ev s)" .
  from Cons.IH[OF this] show ?case by (simp add: run_events_def)
qed

lemma terminated_settle_assign:
  "isShuttingDown s \<Longrightarrow> terminated (completeTask w t s) = terminated s"
  "isShuttingDown s \<Longrightarrow> terminated (failTask w t s) = terminated s"
  "isShuttingDown s \<Longrightarrow> terminated (executeTask t s) = terminated s"
  by (simp_all add: completeTask_def failTask_def executeTask_def
      terminated_assignTask_shutting_down releaseWorker_def)

lemma terminated_dispatch:
  assumes "shutdown_inv T (submitted [ev] @ F) s"
  shows "terminated (dispatch ev s) = terminated s"
proof -
  from assms have sd: "isShuttingDown s" by (rule inv_sd)
  show ?thesis
  proof (cases ev)
    case Poll
    then show ?thesis by simp
  next
    case (Worker_result w m)
    with sd show ?thesis
      by (simp add: handleTaskResult_def terminated_settle_assign split: option.splits)
  next
    case (Worker_error w m)
    with sd show ?thesis
      by (simp add: handleTaskError_def terminated_settle_assign split: option.splits)
  next
    case (Worker_crashed w)
    from assms Worker_crashed have i: "shutdown_inv T F s" by simp
    show ?thesis
    proof (cases "w_currentTask (worker_objs s w)")
      case None
      with Worker_crashed sd show ?thesis
        by (simp add: handleWorkerError_def recreateWorker_shutting_down)
    next
      case (Some t)
      from inv_failTask[OF i Some] have "isShuttingDown (failTask w t s)" by (rule inv_sd)
      with Worker_crashed Some sd show ?thesis
        by (simp add: handleWorkerError_def recreateWorker_shutting_down terminated_settle_assign)
    qed
  next
    case (Worker_exited w code)
    with sd show ?thesis by (simp add: handleWorkerExit_def Let_def removeWorker_def)
  next
    case (Submit t)
    with sd show ?thesis by (simp add: terminated_settle_assign)
  qed
qed

lemma terminated_handle_event:
  assumes "shutdown_inv T (submitted [ev] @ F) s"
  shows "terminated (handle_event ev s) = terminated s"
  using inv_end_of_turn[OF inv_dispatch[OF assms]] terminated_dispatch[OF assms]
  by (simp add: handle_event_def)

lemma terminated_run_events:
  "shutdown_inv T (submitted evs @ F) s \<Longrightarrow> terminated (run_events evs s) = terminated s"
proof (induction evs arbitrary: s)
  case Nil
  then show ?case by (simp add: run_events_def)
next
  case (Cons ev evs)
  from Cons.prems have p: "shutdown_inv T (submitted [ev] @ (submitted evs @ F)) s"
    by (simp add: submitted_Cons[of ev evs])
  from inv_handle_event[OF p] have i: "shutdown_inv T (submitted evs @ F) (handle_event ev s)" .
  from Cons.IH[OF i] terminated_handle_event[OF p] show ?case by (simp add: run_events_def)
qed

lemma inv_shutdown_wait:
  "shutdown_wait evs s = Some w \<Longrightarrow> shutdown_inv T (submitted evs @ F) s
     \<Longrightarrow> shutdown_inv T F w \<and> busyWorkers w = [] \<and> terminated w = terminated s"
proof (induction evs arbitrary: s)
  case Nil
  then show ?case by (simp split: if_splits)
next
  case (Cons ev evs)
  from Cons.prems(2) have p: "shutdown_inv T (submitted [ev] @ (submitted evs @ F)) s"
    by (simp add: submitted_Cons[of ev evs])
  show ?case
  proof (cases "ev = Poll")
    case True
    with p have i: "shutdown_inv T (submitted evs @ F) s" by simp
    show ?thesis
    proof (cases "busyWorkers s = []")
      case b: True
      with True Cons.prems(1) have "w = s" by simp
      with b inv_drop[OF i] show ?thesis by simp
    next
      case False
      with True Cons.prems(1) inv_end_of_turn[OF i] have "shutdown_wait evs s = Some w" by simp
      from Cons.IH[OF this i] show ?thesis .
    qed
  next
    case False
    with Cons.prems(1) have r: "shutdown_wait evs (handle_event ev s) = Some w" by simp
    from Cons.IH[OF r inv_handle_event[OF p]] terminated_handle_event[OF p]
    show ?thesis by simp
  qed
qed

lemma inv_terminate_all: "shutdown_inv T F s \<Longrightarrow> shutdown_inv T F (terminate_all s)"
  by (simp add: terminate_all_def shutdown_inv_def accounted_def fresh_tasks_def tracked_def)

lemma findAvailableWorker_some:
  "availableWorkers s \<noteq> [] \<Longrightarrow> \<exists>w. findAvailableWorker s ty = Some w"
  by (cases "availableWorkers s") (auto simp: findAvailableWorker_def split: option.splits)

lemma executeTask_while_shutting_down:
  assumes "isShuttingDown p"
  shows "settled (executeTask t p) = settled p \<and> workers (executeTask t p) = workers p \<and>
         suspended (executeTask t p) = suspended p \<and>
         (availableWorkers p = [] \<longrightarrow> executeTask t p = p\<lparr>taskQueue := enqueue t (taskQueue p)\<rparr>) \<and>
         (availableWorkers p \<noteq> [] \<longrightarrow>
            (\<exists>w\<in>set (availableWorkers p). \<exists>t' rest. enqueue t (taskQueue p) = t' # rest \<and>
                executeTask t p = assignTaskToWorker w t' (p\<lparr>taskQueue := rest\<rparr>)))"
proof -
  define p2 where "p2 = p\<lparr>taskQueue := enqueue t (taskQueue p)\<rparr>"
  have f: "settled p2 = settled p" "workers p2 = workers p" "suspended p2 = suspended p"
    "availableWorkers p2 = availableWorkers p" "isShuttingDown p2" "taskQueue p2 = enqueue t (taskQueue p)"
    using assms by (simp_all add: p2_def)
  have e: "executeTask t p = assignTask p2" by (simp add: executeTask_def p2_def)
  have "length (enqueue t (taskQueue p)) = Suc (length (taskQueue p))"
    by (simp add: enqueue_def length_js_sort)
  then obtain t' rest where q: "enqueue t (taskQueue p) = t' # rest"
    by (cases "enqueue t (taskQueue p)") auto
  have q2: "taskQueue p2 = t' # rest" by (simp add: f q)
  have upd: "p2\<lparr>taskQueue := rest\<rparr> = p\<lparr>taskQueue := rest\<rparr>" by (simp add: p2_def)
  show ?thesis
  proof (cases "availableWorkers p = []")
    case True
    then have n: "findAvailableWorker p2 (t_type t') = None"
      by (simp add: findAvailableWorker_none f)
    from f(5) have "\<exists>e. createWorker (t_type t') p2 = Inl e" by (simp add: createWorker_refused)
    then have "assignTask p2 = p2" by (intro assignTask_stay[OF q2 n]) simp
    with True f show ?thesis by (simp add: e p2_def)
  next
    case False
    then have "availableWorkers p2 \<noteq> []" by (simp add: f)
    from findAvailableWorker_some[OF this] obtain w where
      w: "findAvailableWorker p2 (t_type t') = Some w" by blast
    from assignTask_found[OF q2 w] upd
    have a: "executeTask t p = assignTaskToWorker w t' (p\<lparr>taskQueue := rest\<rparr>)" by (simp add: e)
    from findAvailableWorker_mem[OF w] have m: "w \<in> set (availableWorkers p)" by (simp add: f)
    have fr: "settled (executeTask t p) = settled p" "workers (executeTask t p) = workers p"
      "suspended (executeTask t p) = suspended p"
      unfolding a by (simp_all add: assignTaskToWorker_def)
    from False fr q a m show ?thesis by blast
  qed
qed

lemma handleTaskResult_hands_over:
  assumes c: "w_currentTask (worker_objs p w) = Some t" and q: "taskQueue p = t' # rest"
  shows "\<exists>w'\<in>set (availableWorkers (releaseWorker w p)).
           handleTaskResult w (t_id t) p =
             assignTaskToWorker w' t'
               ((releaseWorker w p)\<lparr>settled := settled p @ [(t_id t, Resolved)], taskQueue := rest\<rparr>)"
proof -
  define X where "X = (releaseWorker w p)\<lparr>settled := settled p @ [(t_id t, Resolved)]\<rparr>"
  have h: "handleTaskResult w (t_id t) p = assignTask X"
    using c by (simp add: handleTaskResult_def completeTask_def X_def)
  have qx: "taskQueue X = t' # rest" using q by (simp add: X_def releaseWorker_def)
  have ax: "availableWorkers X = availableWorkers (releaseWorker w p)" by (simp add: X_def)
  have "w \<in> set (availableWorkers (releaseWorker w p))"
    by (simp add: releaseWorker_def keys_set_def)
  then have "availableWorkers X \<noteq> []" by (auto simp: ax)
  from findAvailableWorker_some[OF this] obtain w' where
    w': "findAvailableWorker X (t_type t') = Some w'" by blast
  from findAvailableWorker_mem[OF w'] have m: "w' \<in> set (availableWorkers (releaseWorker w p))"
    by (simp add: ax)
  from assignTask_found[OF qx w']
  have "handleTaskResult w (t_id t) p = assignTaskToWorker w' t' (X\<lparr>taskQueue := rest\<rparr>)"
    by (simp add: h)
  with m show ?thesis unfolding X_def by auto
qed

text \<open>
  Claim C5, as amended, for a shutdown that starts with no call of \<open>assignTask\<close> suspended,
  from a state with the bookkeeping of every reachable state and with task ids that are
  not reused. Whenever \<open>shutdown\<close> returns, the pool is marked as shutting down, the
  waiting loop ended at a moment with no busy executor and without any executor having been
  terminated during the wait, exactly the executors registered at that moment were then
  terminated, and the executor maps and the queue are empty. No promise of a task in the
  queue when it is truncated is settled: it is neither resolved nor rejected. A task that
  was queued when \<open>shutdown\<close> was called is in the queue at that moment or was posted to
  an executor in the meantime, and only promises of tasks posted to an executor are ever
  settled. \<open>shutdown\<close> returns when nothing is busy at its first look. While the pool is
  shutting down, creating an executor is refused, but \<open>executeTask\<close> rejects nothing: it
  queues the task, and when an executor is idle it hands it the task at the head of the
  queue. An executor that answers for its current task is released and at once given the
  task at the head of the queue, or another idle executor is.
\<close>

theorem C5_shutdown_empties_the_queue_unsettled:
  assumes "suspended s = []" and "accounted s" and "fresh_tasks s (submitted (evs @ window))"
  shows
  "(\<forall>s'. shutdown evs window s = Some s' \<longrightarrow>
      isShuttingDown s' \<and> workers s' = [] \<and> availableWorkers s' = [] \<and> busyWorkers s' = [] \<and>
      taskQueue s' = [] \<and>
      (\<exists>w c. shutdown_wait (Poll # evs) (s\<lparr>isShuttingDown := True\<rparr>) = Some w \<and>
             busyWorkers w = [] \<and> terminated w = terminated s \<and>
             c = run_events window (end_of_turn (terminate_all w)) \<and>
             s' = shutdown_clear c \<and>
             terminated s' = terminated s @ workers w \<and>
             (\<forall>t\<in>set (taskQueue c). promise_of s' (t_id t) = None) \<and>
             (\<forall>t\<in>set (taskQueue s). t \<in> set (taskQueue c) \<or> (\<exists>wk. (wk, t_id t) \<in> set (posted s')))) \<and>
      (\<forall>i. promise_of s' i \<noteq> None \<longrightarrow> (\<exists>wk. (wk, i) \<in> set (posted s')))) \<and>
   (busyWorkers s = [] \<longrightarrow> shutdown evs window s \<noteq> None) \<and>
   (\<forall>p t ty. isShuttingDown p \<longrightarrow>
      (\<exists>e. createWorker ty p = Inl e) \<and>
      settled (executeTask t p) = settled p \<and> workers (executeTask t p) = workers p \<and>
      suspended (executeTask t p) = suspended p \<and>
      (availableWorkers p = [] \<longrightarrow> executeTask t p = p\<lparr>taskQueue := enqueue t (taskQueue p)\<rparr>) \<and>
      (availableWorkers p \<noteq> [] \<longrightarrow>
         (\<exists>w\<in>set (availableWorkers p). \<exists>t' rest. enqueue t (taskQueue p) = t' # rest \<and>
             executeTask t p = assignTaskToWorker w t' (p\<lparr>taskQueue := rest\<rparr>)))) \<and>
   (\<forall>p w t t' rest. w_currentTask (worker_objs p w) = Some t \<and> taskQueue p = t' # rest \<longrightarrow>
      (\<exists>w'\<in>set (availableWorkers (releaseWorker w p)).
         handleTaskResult w (t_id t) p =
           assignTaskToWorker w' t'
             ((releaseWorker w p)\<lparr>settled := settled p @ [(t_id t, Resolved)], taskQueue := rest\<rparr>)))"
proof (intro conjI)
  define s0 where "s0 = s\<lparr>isShuttingDown := True\<rparr>"
  have inv0: "shutdown_inv (taskQueue s) (submitted (Poll # evs) @ submitted window) s0"
  proof -
    have sub: "submitted (evs @ window) = submitted evs @ submitted window"
      by (induction evs rule: submitted.induct) simp_all
    from assms show ?thesis
      by (simp add: shutdown_inv_def s0_def accounted_def fresh_tasks_def tracked_def sub)
  qed
  show "\<forall>s'. shutdown evs window s = Some s' \<longrightarrow>
      isShuttingDown s' \<and> workers s' = [] \<and> availableWorkers s' = [] \<and> busyWorkers s' = [] \<and>
      taskQueue s' = [] \<and>
      (\<exists>w c. shutdown_wait (Poll # evs) (s\<lparr>isShuttingDown := True\<rparr>) = Some w \<and>
             busyWorkers w = [] \<and> terminated w = terminated s \<and>
             c = run_events window (end_of_turn (terminate_all w)) \<and>
             s' = shutdown_clear c \<and>
             terminated s' = terminated s @ workers w \<and>
             (\<forall>t\<in>set (taskQueue c). promise_of s' (t_id t) = None) \<and>
             (\<forall>t\<in>set (taskQueue s). t \<in> set (taskQueue c) \<or> (\<exists>wk. (wk, t_id t) \<in> set (posted s')))) \<and>
      (\<forall>i. promise_of s' i \<noteq> None \<longrightarrow> (\<exists>wk. (wk, i) \<in> set (posted s')))"
  proof (intro allI impI)
    fix s' assume a: "shutdown evs window s = Some s'"
    then obtain w where w: "shutdown_wait (Poll # evs) s0 = Some w"
      and s': "s' = shutdown_clear (run_events window (end_of_turn (terminate_all w)))"
      by (auto simp: shutdown_def s0_def split: option.splits)
    define c where "c = run_events window (end_of_turn (terminate_all w))"
    from inv_shutdown_wait[OF w inv0]
    have iw: "shutdown_inv (taskQueue s) (submitted window) w" and bw: "busyWorkers w = []"
      and tw: "terminated w = terminated s"
      by (simp_all add: s0_def)
    from inv_terminate_all[OF iw]
    have it: "shutdown_inv (taskQueue s) (submitted window @ []) (terminate_all w)" by simp
    have e: "end_of_turn (terminate_all w) = terminate_all w" by (rule inv_end_of_turn[OF it])
    from inv_run_events[OF it] have ic: "shutdown_inv (taskQueue s) [] c" by (simp add: c_def e)
    have ta: "terminated (terminate_all w) = terminated s @ workers w"
      by (simp add: terminate_all_def tw)
    from terminated_run_events[OF it] have "terminated c = terminated (terminate_all w)"
      by (simp add: c_def e)
    with ta have tc: "terminated c = terminated s @ workers w" by simp
    have sc: "s' = shutdown_clear c" by (simp add: s' c_def)
    from ic have sd: "isShuttingDown c"
      and cur: "\<And>i. i \<in> fst ` set (settled c) \<Longrightarrow> i \<in> snd ` set (posted c)"
      and fr: "\<And>x. x \<in> set (taskQueue c) \<Longrightarrow> t_id x \<notin> snd ` set (posted c)"
      and tr: "\<And>x. x \<in> set (taskQueue s) \<Longrightarrow> x \<in> set (taskQueue c) \<or> t_id x \<in> snd ` set (posted c)"
      unfolding shutdown_inv_def accounted_def fresh_tasks_def tracked_def by auto
    have f: "settled s' = settled c" "posted s' = posted c" "terminated s' = terminated c"
      "isShuttingDown s' = isShuttingDown c"
      by (simp_all add: sc shutdown_clear_def)
    have 1: "isShuttingDown s' \<and> workers s' = [] \<and> availableWorkers s' = [] \<and> busyWorkers s' = [] \<and>
      taskQueue s' = []"
      using sd by (simp add: sc shutdown_clear_def)
    have 2: "\<forall>t\<in>set (taskQueue c). promise_of s' (t_id t) = None"
    proof
      fix t assume "t \<in> set (taskQueue c)"
      from fr[OF this] cur have "t_id t \<notin> fst ` set (settled c)" by blast
      then show "promise_of s' (t_id t) = None"
        by (simp add: promise_of_def f map_of_eq_None_iff)
    qed
    have 3: "\<forall>t\<in>set (taskQueue s). t \<in> set (taskQueue c) \<or> (\<exists>wk. (wk, t_id t) \<in> set (posted s'))"
    proof
      fix t assume "t \<in> set (taskQueue s)"
      from tr[OF this] show "t \<in> set (taskQueue c) \<or> (\<exists>wk. (wk, t_id t) \<in> set (posted s'))"
        by (auto simp: f)
    qed
    have 4: "\<forall>i. promise_of s' i \<noteq> None \<longrightarrow> (\<exists>wk. (wk, i) \<in> set (posted s'))"
    proof (intro allI impI)
      fix i assume "promise_of s' i \<noteq> None"
      then have "i \<in> fst ` set (settled c)"
        by (simp add: promise_of_def f map_of_eq_None_iff)
      from cur[OF this] show "\<exists>wk. (wk, i) \<in> set (posted s')" by (auto simp: f)
    qed
    have 5: "\<exists>w c. shutdown_wait (Poll # evs) (s\<lparr>isShuttingDown := True\<rparr>) = Some w \<and>
             busyWorkers w = [] \<and> terminated w = terminated s \<and>
             c = run_events window (end_of_turn (terminate_all w)) \<and>
             s' = shutdown_clear c \<and>
             terminated s' = terminated s @ workers w \<and>
             (\<forall>t\<in>set (taskQueue c). promise_of s' (t_id t) = None) \<and>
             (\<forall>t\<in>set (taskQueue s). t \<in> set (taskQueue c) \<or> (\<exists>wk. (wk, t_id t) \<in> set (posted s')))"
      using w[unfolded s0_def] bw tw c_def sc tc f(3) 2 3
      by (intro exI[of _ w] exI[of _ c]) simp
    from 1 5 4 show "isShuttingDown s' \<and> workers s' = [] \<and> availableWorkers s' = [] \<and> busyWorkers s' = [] \<and>
      taskQueue s' = [] \<and>
      (\<exists>w c. shutdown_wait (Poll # evs) (s\<lparr>isShuttingDown := True\<rparr>) = Some w \<and>
             busyWorkers w = [] \<and> terminated w = terminated s \<and>
             c = run_events window (end_of_turn (terminate_all w)) \<and>
             s' = shutdown_clear c \<and>
             terminated s' = terminated s @ workers w \<and>
             (\<forall>t\<in>set (taskQueue c). promise_of s' (t_id t) = None) \<and>
             (\<forall>t\<in>set (taskQueue s). t \<in> set (taskQueue c) \<or> (\<exists>wk. (wk, t_id t) \<in> set (posted s')))) \<and>
      (\<forall>i. promise_of s' i \<noteq> None \<longrightarrow> (\<exists>wk. (wk, i) \<in> set (posted s')))"
      by (intro conjI) (fact | simp)+
  qed
next
  show "busyWorkers s = [] \<longrightarrow> shutdown evs window s \<noteq> None"
    by (simp add: shutdown_def)
next
  show "\<forall>p t ty. isShuttingDown p \<longrightarrow>
      (\<exists>e. createWorker ty p = Inl e) \<and>
      settled (executeTask t p) = settled p \<and> workers (executeTask t p) = workers p \<and>
      suspended (executeTask t p) = suspended p \<and>
      (availableWorkers p = [] \<longrightarrow> executeTask t p = p\<lparr>taskQueue := enqueue t (taskQueue p)\<rparr>) \<and>
      (availableWorkers p \<noteq> [] \<longrightarrow>
         (\<exists>w\<in>set (availableWorkers p). \<exists>t' rest. enqueue t (taskQueue p) = t' # rest \<and>
             executeTask t p = assignTaskToWorker w t' (p\<lparr>taskQueue := rest\<rparr>)))"
  proof (intro allI impI)
    fix p :: pool and t :: task and ty :: string
    assume sd: "isShuttingDown p"
    then have "\<exists>e. createWorker ty p = Inl e" by (simp add: createWorker_refused)
    with executeTask_while_shutting_down[OF sd, of t]
    show "(\<exists>e. createWorker ty p = Inl e) \<and>
      settled (executeTask t p) = settled p \<and> workers (executeTask t p) = workers p \<and>
      suspended (executeTask t p) = suspended p \<and>
      (availableWorkers p = [] \<longrightarrow> executeTask t p = p\<lparr>taskQueue := enqueue t (taskQueue p)\<rparr>) \<and>
      (availableWorkers p \<noteq> [] \<longrightarrow>
         (\<exists>w\<in>set (availableWorkers p). \<exists>t' rest. enqueue t (taskQueue p) = t' # rest \<and>
             executeTask t p = assignTaskToWorker w t' (p\<lparr>taskQueue := rest\<rparr>)))"
      by blast
  qed
next
  show "\<forall>p w t t' rest. w_currentTask (worker_objs p w) = Some t \<and> taskQueue p = t' # rest \<longrightarrow>
      (\<exists>w'\<in>set (availableWorkers (releaseWorker w p)).
         handleTaskResult w (t_id t) p =
           assignTaskToWorker w' t'
             ((releaseWorker w p)\<lparr>settled := settled p @ [(t_id t, Resolved)], taskQueue := rest\<rparr>))"
    using handleTaskResult_hands_over by blast
qed

lemmas pool_eval =
  two_tasks_pool_def run_events_def handle_event_def end_of_turn_def resume_assignTask_def
  executeTask_def fresh_pool_def enqueue_def assignTask_def
  findAvailableWorker_def createWorker_def workerTypes_def demo_task_def idle_info_def Let_def
  show_nat_1 assignTaskToWorker_def keys_set_def keys_delete_def queue_cmp_def
  shutdown_def terminate_all_def shutdown_clear_def handleWorkerExit_def removeWorker_def
  recreateWorker_def handleTaskResult_def completeTask_def releaseWorker_def promise_of_def

lemma two_tasks_pool_eq:
  "two_tasks_pool =
     \<lparr>maxWorkers = 1, minWorkers = 1,
      worker_objs = (\<lambda>w. idle_info ''processor'')
        (''parser-1'' := \<lparr>w_type = ''parser'', w_busy = True, w_taskCount = 1,
                          w_currentTask = Some (demo_task ''t1'' ''parser'' Normal)\<rparr>),
      workers = [''parser-1''], availableWorkers = [], busyWorkers = [''parser-1''],
      taskQueue = [demo_task ''t2'' ''parser'' Normal],
      nextWorkerId = 2, isShuttingDown = False, settled = [], terminated = [],
      posted = [(''parser-1'', ''t1'')], suspended = []\<rparr>"
  by (simp add: pool_eval)

lemma two_tasks_pool_ready:
  "suspended two_tasks_pool = []" "accounted two_tasks_pool" "fresh_tasks two_tasks_pool []"
  by (simp_all add: two_tasks_pool_eq accounted_def fresh_tasks_def demo_task_def idle_info_def)

lemma fresh_pool_ready:
  "suspended (fresh_pool n) = []" "accounted (fresh_pool n)" "fresh_tasks (fresh_pool n) []"
  by (simp_all add: fresh_pool_def accounted_def fresh_tasks_def idle_info_def)

lemma shutdown_after_exit:
  "map_option (\<lambda>s'. (taskQueue s', workers s', terminated s', promise_of s' ''t1'', promise_of s' ''t2''))
     (shutdown [Worker_exited ''parser-1'' 1] [] two_tasks_pool)
   = Some ([], [], [], None, None)"
  by (simp add: pool_eval)

lemma shutdown_after_results:
  "map_option (\<lambda>s'. (taskQueue s', workers s', terminated s', promise_of s' ''t1'', promise_of s' ''t2''))
     (shutdown [Worker_result ''parser-1'' ''t1'', Worker_result ''parser-1'' ''t2''] [] two_tasks_pool)
   = Some ([], [], [''parser-1''], Some Resolved, Some Resolved)"
  by (simp add: pool_eval)

lemma shutdown_waits_for_ever:
  "shutdown [Worker_result ''parser-1'' ''t1''] window two_tasks_pool = None"
  by (simp add: pool_eval)

text \<open>
  Claim C5 as stated fails. One executor runs \<open>t1\<close> and \<open>t2\<close> waits in the queue when
  \<open>shutdown\<close> is called. If the executor exits, \<open>shutdown\<close> returns with the queue
  emptied and the promise of \<open>t2\<close> never settled; if the executor answers, \<open>t2\<close> is
  assigned to it during the wait and resolved. In neither run is \<open>t2\<close> rejected. And a
  task submitted while the pool is shutting down is accepted into the queue.
\<close>

theorem C5_counterexample:
  "taskQueue two_tasks_pool = [demo_task ''t2'' ''parser'' Normal] \<and>
   shutdown [Worker_exited ''parser-1'' 1] [] two_tasks_pool \<noteq> None \<and>
   taskQueue (the (shutdown [Worker_exited ''parser-1'' 1] [] two_tasks_pool)) = [] \<and>
   promise_of (the (shutdown [Worker_exited ''parser-1'' 1] [] two_tasks_pool)) ''t2'' = None \<and>
   shutdown [Worker_result ''parser-1'' ''t1'', Worker_result ''parser-1'' ''t2''] [] two_tasks_pool \<noteq> None \<and>
   promise_of (the (shutdown [Worker_result ''parser-1'' ''t1'', Worker_result ''parser-1'' ''t2''] []
                      two_tasks_pool)) ''t2'' = Some Resolved \<and>
   taskQueue (executeTask (demo_task ''t3'' ''parser'' High) (two_tasks_pool\<lparr>isShuttingDown := True\<rparr>))
     = [demo_task ''t3'' ''parser'' High, demo_task ''t2'' ''parser'' Normal] \<and>
   settled (executeTask (demo_task ''t3'' ''parser'' High) (two_tasks_pool\<lparr>isShuttingDown := True\<rparr>))
     = []"
  by (simp add: pool_eval)

text \<open>
  The amended claim at concrete runs: the shutdown during which the only executor exits, the
  shutdown of a pool without executors, and a submission to a pool that is shutting down.
\<close>

theorem C5_witness:
  "suspended two_tasks_pool = [] \<and> accounted two_tasks_pool \<and>
   fresh_tasks two_tasks_pool (submitted ([Worker_exited ''parser-1'' 1] @ [])) \<and>
   shutdown [Worker_exited ''parser-1'' 1] [] two_tasks_pool \<noteq> None \<and>
   isShuttingDown (the (shutdown [Worker_exited ''parser-1'' 1] [] two_tasks_pool)) \<and>
   workers (the (shutdown [Worker_exited ''parser-1'' 1] [] two_tasks_pool)) = [] \<and>
   taskQueue (the (shutdown [Worker_exited ''parser-1'' 1] [] two_tasks_pool)) = [] \<and>
   promise_of (the (shutdown [Worker_exited ''parser-1'' 1] [] two_tasks_pool)) ''t2'' = None \<and>
   shutdown [] [] (fresh_pool 1) \<noteq> None \<and>
   taskQueue (executeTask (demo_task ''t3'' ''parser'' High) (two_tasks_pool\<lparr>isShuttingDown := True\<rparr>))
     = [demo_task ''t3'' ''parser'' High, demo_task ''t2'' ''parser'' Normal]"
proof -
  have sub: "submitted ([Worker_exited ''parser-1'' 1] @ []) = []" by simp
  from two_tasks_pool_ready(3)
  have fr: "fresh_tasks two_tasks_pool (submitted ([Worker_exited ''parser-1'' 1] @ []))"
    by (simp only: sub)
  note r = two_tasks_pool_ready(1) two_tasks_pool_ready(2) fr
  from shutdown_after_exit obtain s' where
    s': "shutdown [Worker_exited ''parser-1'' 1] [] two_tasks_pool = Some s'"
    and nt: "(''parser-1'', ''t2'') \<notin> set (posted s') \<and> posted s' = [(''parser-1'', ''t1'')]"
    by (simp add: pool_eval)
  note T = C5_shutdown_empties_the_queue_unsettled[OF r]
  from T[THEN conjunct1, rule_format, OF s']
  have 1: "isShuttingDown s' \<and> workers s' = [] \<and> taskQueue s' = []"
    and p: "\<forall>i. promise_of s' i \<noteq> None \<longrightarrow> (\<exists>wk. (wk, i) \<in> set (posted s'))"
    by blast+
  have 2: "promise_of s' ''t2'' = None"
  proof (rule ccontr)
    assume "promise_of s' ''t2'' \<noteq> None"
    with p have "\<exists>wk. (wk, ''t2'') \<in> set (posted s')" by blast
    with nt show False by simp
  qed
  have f: "suspended (fresh_pool 1) = []" "accounted (fresh_pool 1)"
    "fresh_tasks (fresh_pool 1) (submitted ([] @ []))"
    using fresh_pool_ready[of 1] by simp_all
  have b: "busyWorkers (fresh_pool 1) = []" by (simp add: fresh_pool_def)
  from C5_shutdown_empties_the_queue_unsettled[OF f, THEN conjunct2, THEN conjunct1, rule_format, OF b]
  have 3: "shutdown [] [] (fresh_pool 1) \<noteq> None" .
  have sd: "isShuttingDown (two_tasks_pool\<lparr>isShuttingDown := True\<rparr>)" by simp
  have av: "availableWorkers (two_tasks_pool\<lparr>isShuttingDown := True\<rparr>) = []"
    by (simp add: two_tasks_pool_eq)
  from T[THEN conjunct2, THEN conjunct2, THEN conjunct1, rule_format, OF sd,
      of _ "demo_task ''t3'' ''parser'' High"] av
  have "executeTask (demo_task ''t3'' ''parser'' High) (two_tasks_pool\<lparr>isShuttingDown := True\<rparr>)
      = (two_tasks_pool\<lparr>isShuttingDown := True\<rparr>)\<lparr>taskQueue :=
          enqueue (demo_task ''t3'' ''parser'' High) (taskQueue (two_tasks_pool\<lparr>isShuttingDown := True\<rparr>))\<rparr>"
    by blast
  then have 4: "taskQueue (executeTask (demo_task ''t3'' ''parser'' High) (two_tasks_pool\<lparr>isShuttingDown := True\<rparr>))
     = [demo_task ''t3'' ''parser'' High, demo_task ''t2'' ''parser'' Normal]"
    by (simp add: two_tasks_pool_eq enqueue_def queue_cmp_def demo_task_def)
  from r s' 1 2 3 4 show ?thesis by simp
qed

section \<open>Filtering, sorting and grouping\<close>

lemma filter_loop_filter:
  "filter_loop P cs ds acc = acc @ filter (\<lambda>r. evaluateConditions P r cs) ds"
  by (induction ds arbitrary: acc) auto

lemma filterData_filter: "filterData P ds cs = filter (\<lambda>r. evaluateConditions P r cs) ds"
  by (simp add: filterData_def filter_loop_filter)

lemma evaluateConditions_append:
  "evaluateConditions P r (c1 @ c2) = (evaluateConditions P r c1 \<and> evaluateConditions P r c2)"
  by (auto simp: evaluateConditions_def)

text \<open>
  Claim C7. Filtering with \<open>c1\<close> and then filtering the result with \<open>c2\<close> gives the same
  row sequence as filtering once with \<open>c1 @ c2\<close>: a row passes a condition list exactly
  when it passes every condition of it, and the rows that pass keep their order (the result
  is the subsequence of the passing rows).
\<close>

theorem C7_filter_composes:
  "filterData P (filterData P dataset c1) c2 = filterData P dataset (c1 @ c2) \<and>
   evaluateConditions P r (c1 @ c2) = (evaluateConditions P r c1 \<and> evaluateConditions P r c2) \<and>
   filterData P dataset c1 = filter (\<lambda>r. evaluateConditions P r c1) dataset \<and>
   subseq (filterData P dataset c1) dataset"
proof -
  have "filter (\<lambda>r. evaluateConditions P r c2) (filter (\<lambda>r. evaluateConditions P r c1) dataset)
      = filter (\<lambda>r. evaluateConditions P r (c1 @ c2)) dataset"
    by (simp add: evaluateConditions_append conj_commute)
  then show ?thesis
    by (simp add: filterData_filter evaluateConditions_append)
qed


















lemma keys_Map_set_old: "k \<in> fst ` set m \<Longrightarrow> map fst (Map_set m k v) = map fst m"
proof (induction m)
  case Nil
  then show ?case by simp
next
  case (Cons e m)
  obtain k' v' where e: "e = (k', v')" by (cases e)
  show ?case
  proof (cases "k' = k")
    case True
    then show ?thesis by (simp add: e)
  next
    case False
    with Cons.prems have "k \<in> fst ` set m" by (simp add: e)
    from Cons.IH[OF this] False show ?thesis by (simp add: e)
  qed
qed

lemma keys_Map_set_new: "k \<notin> fst ` set m \<Longrightarrow> map fst (Map_set m k v) = map fst m @ [k]"
  by (induction m) auto

lemma keys_Map_set:
  "map fst (Map_set m k v) = (if k \<in> set (map fst m) then map fst m else map fst m @ [k])"
  by (simp add: keys_Map_set_old keys_Map_set_new)

lemma Map_get_Map_set:
  "Map_get (Map_set m k v) k' = (if k' = k then Some v else Map_get m k')"
  by (induction m) auto

lemma keys_add_row:
  "map fst (add_row P aggs gb G r)
     = (if groupKey gb r \<in> set (map fst G) then map fst G else map fst G @ [groupKey gb r])"
  by (simp add: add_row_def Let_def keys_Map_set)

lemma keys_foldl_add_row:
  "distinct (map fst G) \<Longrightarrow>
     distinct (map fst (foldl (add_row P aggs gb) G ds)) \<and>
     set (map fst (foldl (add_row P aggs gb) G ds)) = set (map fst G) \<union> groupKey gb ` set ds"
proof (induction ds arbitrary: G)
  case Nil
  then show ?case by simp
next
  case (Cons r ds)
  have d: "distinct (map fst (add_row P aggs gb G r))"
    using Cons.prems by (simp add: keys_add_row)
  have s: "set (map fst (add_row P aggs gb G r)) = insert (groupKey gb r) (set (map fst G))"
    by (auto simp: keys_add_row)
  from Cons.IH[OF d] s show ?case by auto
qed

lemma count_update_group [simp]: "g_count (update_group P r g agg) = g_count g"
  by (simp add: update_group_def Let_def)

lemma count_foldl_update_group [simp]: "g_count (foldl (update_group P r) g aggs) = g_count g"
  by (induction aggs arbitrary: g) auto

lemma count_in_add_row:
  "count_in (add_row P aggs gb G r) k = count_in G k + (if groupKey gb r = k then 1 else 0)"
  by (auto simp: count_in_def add_row_def Let_def Map_get_Map_set split: option.splits)

lemma count_in_foldl:
  "count_in (foldl (add_row P aggs gb) G ds) k
     = count_in G k + length (filter (\<lambda>r. groupKey gb r = k) ds)"
  by (induction ds arbitrary: G) (auto simp: count_in_add_row)

lemma split_at_separator:
  "c \<notin> set a \<Longrightarrow> c \<notin> set b \<Longrightarrow> a @ c # r = b @ c # r' \<Longrightarrow> a = b \<and> r = r'"
proof (induction a arbitrary: b)
  case Nil
  then show ?case by (cases b) auto
next
  case (Cons x a)
  then show ?case by (cases b) auto
qed

lemma join_strings_inj:
  assumes "length xs = length ys"
    and "\<forall>x\<in>set xs. c \<notin> set x" and "\<forall>y\<in>set ys. c \<notin> set y"
    and "join_strings [c] xs = join_strings [c] ys"
  shows "xs = ys"
  using assms
proof (induction xs ys rule: list_induct2)
  case Nil
  then show ?case by simp
next
  case (Cons x xs y ys)
  show ?case
  proof (cases xs)
    case Nil
    with Cons have "ys = []" by simp
    with Nil Cons.prems show ?thesis by simp
  next
    case (Cons x2 xs2)
    with Cons.hyps obtain y2 ys2 where ys: "ys = y2 # ys2" by (cases ys) auto
    from Cons.prems(3) local.Cons ys
    have "x @ c # join_strings [c] xs = y @ c # join_strings [c] ys" by simp
    moreover have "c \<notin> set x" "c \<notin> set y" using Cons.prems(1,2) by simp_all
    ultimately have "x = y \<and> join_strings [c] xs = join_strings [c] ys"
      by (intro split_at_separator)
    with Cons.IH Cons.prems(1,2) show ?thesis by simp
  qed
qed


lemma groupKey_same_cells:
  "map (cell r1) gb = map (cell r2) gb \<Longrightarrow> groupKey gb r1 = groupKey gb r2"
proof -
  assume a: "map (cell r1) gb = map (cell r2) gb"
  then have "\<forall>c\<in>set gb. cell r1 c = cell r2 c" by simp
  then have "map (\<lambda>col. join_elem (cell r1 col)) gb = map (\<lambda>col. join_elem (cell r2 col)) gb"
    by simp
  then show ?thesis unfolding groupKey_def by (simp only:)
qed

lemma bar_free_Str: "bar_free v \<Longrightarrow> \<exists>s. v = Str s \<and> CHR ''|'' \<notin> set s"
  by (cases v) (auto simp: bar_free_def)

lemma groupKey_bar_free_inj:
  assumes bf: "\<forall>c\<in>set gb. bar_free (cell r1 c) \<and> bar_free (cell r2 c)"
    and eq: "groupKey gb r1 = groupKey gb r2"
  shows "map (cell r1) gb = map (cell r2) gb"
proof (cases "gb = []")
  case True
  then show ?thesis by simp
next
  case False
  let ?xs = "map (\<lambda>col. join_elem (cell r1 col)) gb"
  let ?ys = "map (\<lambda>col. join_elem (cell r2 col)) gb"
  have j: "join_strings ''|'' ?xs = join_strings ''|'' ?ys"
    using eq False by (simp add: groupKey_def)
  have x: "\<forall>x\<in>set ?xs. CHR ''|'' \<notin> set x"
  proof
    fix x assume "x \<in> set ?xs"
    then obtain c where c: "c \<in> set gb" and x: "x = join_elem (cell r1 c)" by auto
    from bf c obtain s where "cell r1 c = Str s" "CHR ''|'' \<notin> set s"
      using bar_free_Str by blast
    with x show "CHR ''|'' \<notin> set x" by simp
  qed
  have y: "\<forall>y\<in>set ?ys. CHR ''|'' \<notin> set y"
  proof
    fix y assume "y \<in> set ?ys"
    then obtain c where c: "c \<in> set gb" and y: "y = join_elem (cell r2 c)" by auto
    from bf c obtain s where "cell r2 c = Str s" "CHR ''|'' \<notin> set s"
      using bar_free_Str by blast
    with y show "CHR ''|'' \<notin> set y" by simp
  qed
  have "?xs = ?ys"
    by (rule join_strings_inj[of ?xs ?ys "CHR ''|''"]) (use x y j in simp_all)
  then have e: "\<forall>c\<in>set gb. join_elem (cell r1 c) = join_elem (cell r2 c)" by simp
  have "\<forall>c\<in>set gb. cell r1 c = cell r2 c"
  proof
    fix c assume c: "c \<in> set gb"
    from bf c obtain s1 s2 where s: "cell r1 c = Str s1" "cell r2 c = Str s2"
      using bar_free_Str by blast
    with e c show "cell r1 c = cell r2 c" by fastforce
  qed
  then show ?thesis by simp
qed

text \<open>
  Claim C9, as amended. The groups are the distinct composite keys (the \<open>groupBy\<close> cells
  joined with \<open>|\<close>): there is exactly one group, and one output row, per distinct key,
  and the group of a key counts exactly the rows with that key. Rows whose \<open>groupBy\<close>
  cells are pairwise equal have the same key; rows with the same key have pairwise equal
  \<open>groupBy\<close> cells when those cells are strings without \<open>|\<close>.
\<close>

theorem C9_one_row_per_composite_key:
  "distinct (map fst (group_rows P dataset aggs gb)) \<and>
   set (map fst (group_rows P dataset aggs gb)) = groupKey gb ` set dataset \<and>
   length (aggregateData P dataset aggs gb) = card (groupKey gb ` set dataset) \<and>
   (\<forall>k. count_in (group_rows P dataset aggs gb) k
          = length (filter (\<lambda>r. groupKey gb r = k) dataset)) \<and>
   (\<forall>r1 r2. map (cell r1) gb = map (cell r2) gb \<longrightarrow> groupKey gb r1 = groupKey gb r2) \<and>
   (\<forall>r1 r2. (\<forall>c\<in>set gb. bar_free (cell r1 c) \<and> bar_free (cell r2 c)) \<and>
             groupKey gb r1 = groupKey gb r2 \<longrightarrow> map (cell r1) gb = map (cell r2) gb)"
proof -
  have k: "distinct (map fst (group_rows P dataset aggs gb)) \<and>
     set (map fst (group_rows P dataset aggs gb)) = groupKey gb ` set dataset"
    using keys_foldl_add_row[of "[]" P aggs gb dataset] by (simp add: group_rows_def)
  then have "card (groupKey gb ` set dataset) = length (map fst (group_rows P dataset aggs gb))"
    using distinct_card[of "map fst (group_rows P dataset aggs gb)"] by simp
  then have l: "length (aggregateData P dataset aggs gb) = card (groupKey gb ` set dataset)"
    by (simp add: aggregateData_def)
  have c: "\<forall>k. count_in (group_rows P dataset aggs gb) k
          = length (filter (\<lambda>r. groupKey gb r = k) dataset)"
    by (simp add: group_rows_def count_in_foldl) (simp add: count_in_def)
  from k l c groupKey_same_cells groupKey_bar_free_inj show ?thesis
    by (intro conjI) (fast | blast)+
qed

lemmas agg_eval =
  aggregateData_def group_rows_def add_row_def groupKey_def cell_def demo_row_def
  new_groupData_def update_group_def finalize_group_def alias_of_def initializeAggregation_def
  updateAggregation_def Let_def

text \<open>
  Claim C9 as stated fails: the separator can occur in a cell. The rows
  \<open>{a:'x|y', b:'z'}\<close> and \<open>{a:'x', b:'y|z'}\<close> differ in both \<open>groupBy\<close> columns, have
  the same composite key and end up in one group with one output row.
\<close>

theorem C9_counterexample:
  "map (cell (demo_row (Str ''x|y'') (Str ''z''))) [''a'', ''b'']
     \<noteq> map (cell (demo_row (Str ''x'') (Str ''y|z''))) [''a'', ''b''] \<and>
   groupKey [''a'', ''b''] (demo_row (Str ''x|y'') (Str ''z''))
     = groupKey [''a'', ''b''] (demo_row (Str ''x'') (Str ''y|z'')) \<and>
   length (aggregateData demo_platform
             [demo_row (Str ''x|y'') (Str ''z''), demo_row (Str ''x'') (Str ''y|z'')] []
             [''a'', ''b'']) = 1"
  by (simp add: agg_eval)

lemma demo_aggregate:
  "aggregateData demo_platform
     [demo_row (Str ''x'') (Num 1), demo_row (Str ''y'') (Num 2), demo_row (Str ''x'') (Num 3)]
     [\<lparr>a_function = ''sum'', a_column = ''b'', a_alias = None\<rparr>] [''a'']
   = [[(''a'', Cell (Str ''x'')), (''sum_b'', Number (Fin 4))],
      [(''a'', Cell (Str ''y'')), (''sum_b'', Number (Fin 2))]]"
  by (simp add: agg_eval)

text \<open>
  The amended claim on three rows grouped by \<open>a\<close>: two groups, the group of \<open>x\<close>
  holding two rows.
\<close>

theorem C9_witness:
  "groupKey [''a''] (demo_row (Str ''x'') (Num 1)) = groupKey [''a''] (demo_row (Str ''x'') (Num 3)) \<and>
   map (cell (demo_row (Str ''x'') (Num 1))) [''a''] = map (cell (demo_row (Str ''x'') (Num 3))) [''a''] \<and>
   length (aggregateData demo_platform
     [demo_row (Str ''x'') (Num 1), demo_row (Str ''y'') (Num 2), demo_row (Str ''x'') (Num 3)]
     [\<lparr>a_function = ''sum'', a_column = ''b'', a_alias = None\<rparr>] [''a'']) = 2 \<and>
   count_in (group_rows demo_platform
     [demo_row (Str ''x'') (Num 1), demo_row (Str ''y'') (Num 2), demo_row (Str ''x'') (Num 3)]
     [\<lparr>a_function = ''sum'', a_column = ''b'', a_alias = None\<rparr>] [''a'']) ''x'' = 2"
proof -
  let ?w1 = "demo_row (Str ''x'') (Num 1)" and ?w2 = "demo_row (Str ''y'') (Num 2)"
    and ?w3 = "demo_row (Str ''x'') (Num 3)"
  let ?aggs = "[\<lparr>a_function = ''sum'', a_column = ''b'', a_alias = None\<rparr>]"
  note T = C9_one_row_per_composite_key[of demo_platform "[?w1, ?w2, ?w3]" ?aggs "[''a'']"]
  have c: "map (cell ?w1) [''a''] = map (cell ?w3) [''a'']"
    by (simp add: cell_def demo_row_def)
  from T[THEN conjunct2, THEN conjunct2, THEN conjunct2, THEN conjunct2, THEN conjunct1,
      rule_format, OF c]
  have k: "groupKey [''a''] ?w1 = groupKey [''a''] ?w3" .
  have bf: "(\<forall>c\<in>set [''a'']. bar_free (cell ?w1 c) \<and> bar_free (cell ?w3 c)) \<and>
      groupKey [''a''] ?w1 = groupKey [''a''] ?w3"
    using k by (simp add: bar_free_def cell_def demo_row_def)
  from T[THEN conjunct2, THEN conjunct2, THEN conjunct2, THEN conjunct2, THEN conjunct2,
      rule_format, OF bf]
  have c': "map (cell ?w1) [''a''] = map (cell ?w3) [''a'']" .
  from T have "count_in (group_rows demo_platform [?w1, ?w2, ?w3] ?aggs [''a'']) ''x''
      = length (filter (\<lambda>r. groupKey [''a''] r = ''x'') [?w1, ?w2, ?w3])"
    by blast
  then have n: "count_in (group_rows demo_platform [?w1, ?w2, ?w3] ?aggs [''a'']) ''x'' = 2"
    by (simp add: groupKey_def cell_def demo_row_def)
  have l: "length (aggregateData demo_platform [?w1, ?w2, ?w3] ?aggs [''a'']) = 2"
    by (simp add: demo_aggregate)
  from k c' l n show ?thesis by simp
qed

section \<open>Chunk sizes in the pipeline\<close>

text \<open>
  The chunked reader: with a chunk size below 1 its loop never ends; whenever it ends, every
  chunk it pushed has at most \<open>chunkSize\<close> rows; and with a chunk size of at least 1 it
  ends.
\<close>

lemma read_loop_never_ends:
  "chunkSize \<le> 0 \<Longrightarrow> currentRow \<le> endRow \<Longrightarrow>
     read_loop fuel chunkSize ws rg headers currentRow endRow = None"
proof (induction fuel arbitrary: currentRow)
  case 0
  then show ?case by simp
next
  case (Suc fuel)
  have "min (currentRow + chunkSize - 1) endRow + 1 \<le> endRow"
    using Suc.prems by simp
  from Suc.IH[OF Suc.prems(1) this] Suc.prems show ?case
    by (simp add: Let_def)
qed

lemma read_loop_bounded:
  "read_loop fuel chunkSize ws rg headers currentRow endRow = Some chunks \<Longrightarrow>
     \<forall>c\<in>set chunks. int (length (dc_chunk c)) \<le> chunkSize"
proof (induction fuel arbitrary: currentRow chunks)
  case 0
  then show ?case by simp
next
  case (Suc fuel)
  show ?case
  proof (cases "currentRow \<le> endRow")
    case False
    with Suc.prems show ?thesis by simp
  next
    case True
    define chunkEndRow where "chunkEndRow = min (currentRow + chunkSize - 1) endRow"
    from True Suc.prems read_loop_never_ends[of chunkSize currentRow endRow "Suc fuel" ws rg headers]
    have pos: "1 \<le> chunkSize" by (cases "chunkSize \<le> 0") simp_all
    from Suc.prems True obtain rest where
      rest: "read_loop fuel chunkSize ws rg headers (chunkEndRow + 1) endRow = Some rest"
      and chunks: "chunks = \<lparr>dc_type = ''data'',
            dc_chunk = map (read_row ws rg headers) [currentRow..chunkEndRow],
            dc_startRow = currentRow, dc_endRow = chunkEndRow, dc_headers = headers\<rparr> # rest"
      by (auto simp: Let_def chunkEndRow_def)
    have "int (length [currentRow..chunkEndRow]) \<le> chunkSize"
      using pos True by (simp add: chunkEndRow_def)
    with Suc.IH[OF rest] chunks show ?thesis by simp
  qed
qed

lemma read_loop_ends:
  "1 \<le> chunkSize \<Longrightarrow> nat (endRow - currentRow + 1) < fuel \<Longrightarrow>
     read_loop fuel chunkSize ws rg headers currentRow endRow \<noteq> None"
proof (induction fuel arbitrary: currentRow)
  case 0
  then show ?case by simp
next
  case (Suc fuel)
  show ?case
  proof (cases "currentRow \<le> endRow")
    case False
    then show ?thesis by simp
  next
    case True
    have "nat (endRow - (min (currentRow + chunkSize - 1) endRow + 1) + 1) < fuel"
      using Suc.prems True by (simp add: min_def) linarith
    from Suc.IH[OF Suc.prems(1) this] True show ?thesis
      by (auto simp: Let_def)
  qed
qed

lemma rechunk_demo:
  "rechunk 100000 0 [r1, r2, r3] hs =
     [\<lparr>dc_type = ''data'', dc_chunk = [r1, r2, r3], dc_startRow = 0, dc_endRow = 2, dc_headers = hs\<rparr>]"
  by (simp add: rechunk.simps[of 100000 0] rechunk.simps[of 100000 100000])

text \<open>
  Claim C8 at the sort stage. The processor is configured with a chunk size of 2 and the
  sort stage receives three rows in chunks of two and one. \<open>flush\<close> reads the chunk size
  from \<open>this.options\<close>, which the stream does not have, falls back to 100000, and pushes
  the three sorted rows as one chunk: a chunk larger than the configured chunk size.
\<close>

theorem C8_sort_stage_ignores_chunkSize:
  "so_chunkSize (new_StreamProcessor (Some 2)) = 2 \<and>
   map (\<lambda>c. length (dc_chunk c)) demo_chunks = [2, 1] \<and>
   map (\<lambda>c. length (dc_chunk c))
     (createSortStream (new_StreamProcessor (Some 2)) num_lt_cells [asc ''a''] demo_chunks) = [3] \<and>
   createSortStream (new_StreamProcessor (Some 2)) num_lt_cells [asc ''a''] demo_chunks =
     [\<lparr>dc_type = ''data'', dc_chunk = [[(''a'', Num 1)], [(''a'', Num 2)], [(''a'', Num 3)]],
       dc_startRow = 0, dc_endRow = 2, dc_headers = [Str ''a'']\<rparr>]"
  by (simp add: new_StreamProcessor_def demo_chunks_def createSortStream_def flush_chunkSize_def
      new_Transform_def num_lt_cells_def asc_def direction_of_def cell_def rechunk_demo Let_def)

end
